theory Spec2Isabelle
  imports Complex_Main "HOL-Library.Word" "HOL-Library.Signed_Division"
begin

section \<open>Machine arithmetic of the Go source\<close>

subsection \<open>IEEE 754 binary64 (\<open>float64\<close>)\<close>

text \<open>
  A \<open>float64\<close> is its 64-bit pattern: bit 63 is the sign, bits 62..52 the biased
  exponent, bits 51..0 the fraction. The lower 63 bits read as a number (\<open>f_mag\<close>) order
  the magnitudes: \<open>0\<close> is zero, \<open>1 .. 2^52 - 1\<close> the subnormals, \<open>inf_mag\<close> infinity,
  anything above a NaN. Arithmetic is the exact operation on the decoded values followed
  by rounding to nearest, ties to even; Go fixes this for every operation it does not
  fuse. Every NaN result is the quiet NaN \<open>f64_nan\<close>: the payload is not observable in
  the program modelled here.
\<close>

type_synonym float64 = "64 word"

definition pow2 :: "int \<Rightarrow> real" where
  "pow2 k = (if 0 \<le> k then 2 ^ nat k else 1 / 2 ^ nat (- k))"

definition f_sign :: "float64 \<Rightarrow> bool" where
  "f_sign w = (2 ^ 63 \<le> unat w)"

definition f_mag :: "float64 \<Rightarrow> nat" where
  "f_mag w = unat w mod 2 ^ 63"

definition inf_mag :: nat where
  "inf_mag = 2047 * 2 ^ 52"

definition is_nan :: "float64 \<Rightarrow> bool" where
  "is_nan w = (inf_mag < f_mag w)"

definition is_inf :: "float64 \<Rightarrow> bool" where
  "is_inf w = (f_mag w = inf_mag)"

definition is_zero :: "float64 \<Rightarrow> bool" where
  "is_zero w = (f_mag w = 0)"

text \<open>
  The value of a magnitude: \<open>fraction * 2^-1074\<close> for a subnormal,
  \<open>(2^52 + fraction) * 2^(exponent - 1075)\<close> otherwise. On \<open>inf_mag\<close> the same formula
  gives \<open>2^1024\<close>, above every finite value, so comparisons may use it for infinities.
\<close>

definition mag_val :: "nat \<Rightarrow> real" where
  "mag_val b = (if b div 2 ^ 52 = 0 then real b * pow2 (- 1074)
     else real (2 ^ 52 + b mod 2 ^ 52) * pow2 (int (b div 2 ^ 52) - 1075))"

definition valof :: "float64 \<Rightarrow> real" where
  "valof w = (if f_sign w then - mag_val (f_mag w) else mag_val (f_mag w))"

definition mk_float :: "bool \<Rightarrow> nat \<Rightarrow> float64" where
  "mk_float s b = of_nat ((if s then 2 ^ 63 else 0) + b)"

definition f64_nan :: float64 where
  "f64_nan = mk_float False (inf_mag + 2 ^ 51)"

definition f64_inf :: "bool \<Rightarrow> float64" where
  "f64_inf s = mk_float s inf_mag"

text \<open>Number of binary digits of a natural number.\<close>

fun bitlen :: "nat \<Rightarrow> nat" where
  "bitlen n = (if n = 0 then 0 else Suc (bitlen (n div 2)))"

declare bitlen.simps [simp del]

text \<open>\<open>ilog2 a\<close> is the exponent \<open>e\<close> with \<open>2^e \<le> a < 2^(e+1)\<close>, for \<open>a > 0\<close>.\<close>

definition ilog2 :: "real \<Rightarrow> int" where
  "ilog2 a = (if 1 \<le> a then int (bitlen (nat \<lfloor>a\<rfloor>)) - 1
     else - int (bitlen (nat (\<lceil>1 / a\<rceil> - 1))))"

text \<open>Rounding to the nearest integer, ties to the even one.\<close>

definition rne :: "real \<Rightarrow> int" where
  "rne x = (if x - of_int \<lfloor>x\<rfloor> < 1 / 2 then \<lfloor>x\<rfloor>
     else if 1 / 2 < x - of_int \<lfloor>x\<rfloor> then \<lfloor>x\<rfloor> + 1
     else if even \<lfloor>x\<rfloor> then \<lfloor>x\<rfloor> else \<lfloor>x\<rfloor> + 1)"

text \<open>
  The biased exponent under which \<open>a > 0\<close> is rounded (at least 1: below \<open>2^-1022\<close>
  the spacing stays \<open>2^-1074\<close>), and the magnitude bits of the rounded result. A carry
  out of the fraction runs into the exponent field, which is the next binade; results
  from \<open>2^1024\<close> on are infinity.
\<close>

definition f_exp :: "real \<Rightarrow> int" where
  "f_exp a = max 1 (ilog2 a + 1023)"

definition round_mag :: "real \<Rightarrow> nat" where
  "round_mag a = (if a = 0 then 0
     else min (nat ((f_exp a - 1) * 2 ^ 52 + rne (a / pow2 (f_exp a - 1075)))) inf_mag)"

definition fround :: "real \<Rightarrow> float64" where
  "fround x = mk_float (x < 0) (round_mag \<bar>x\<bar>)"

definition fneg :: "float64 \<Rightarrow> float64" where
  "fneg w = mk_float (\<not> f_sign w) (f_mag w)"

definition fadd :: "float64 \<Rightarrow> float64 \<Rightarrow> float64" where
  "fadd a b =
     (if is_nan a \<or> is_nan b then f64_nan
      else if is_inf a then (if is_inf b \<and> f_sign a \<noteq> f_sign b then f64_nan else a)
      else if is_inf b then b
      else if valof a + valof b = 0 then mk_float (f_sign a \<and> f_sign b) 0
      else fround (valof a + valof b))"

definition fsub :: "float64 \<Rightarrow> float64 \<Rightarrow> float64" where
  "fsub a b = fadd a (fneg b)"

definition fmul :: "float64 \<Rightarrow> float64 \<Rightarrow> float64" where
  "fmul a b =
     (if is_nan a \<or> is_nan b then f64_nan
      else if is_inf a \<or> is_inf b then
        (if is_zero a \<or> is_zero b then f64_nan else f64_inf (f_sign a \<noteq> f_sign b))
      else mk_float (f_sign a \<noteq> f_sign b) (round_mag \<bar>valof a * valof b\<bar>))"

definition fdiv :: "float64 \<Rightarrow> float64 \<Rightarrow> float64" where
  "fdiv a b =
     (if is_nan a \<or> is_nan b then f64_nan
      else if is_inf a then (if is_inf b then f64_nan else f64_inf (f_sign a \<noteq> f_sign b))
      else if is_inf b then mk_float (f_sign a \<noteq> f_sign b) 0
      else if is_zero b then (if is_zero a then f64_nan else f64_inf (f_sign a \<noteq> f_sign b))
      else mk_float (f_sign a \<noteq> f_sign b) (round_mag \<bar>valof a / valof b\<bar>))"

text \<open>Comparisons are false as soon as one side is a NaN; \<open>-0\<close> equals \<open>+0\<close>.\<close>

definition flt :: "float64 \<Rightarrow> float64 \<Rightarrow> bool" where
  "flt a b = (\<not> is_nan a \<and> \<not> is_nan b \<and> valof a < valof b)"

definition fge :: "float64 \<Rightarrow> float64 \<Rightarrow> bool" where
  "fge a b = (\<not> is_nan a \<and> \<not> is_nan b \<and> valof b \<le> valof a)"

definition feq :: "float64 \<Rightarrow> float64 \<Rightarrow> bool" where
  "feq a b = (\<not> is_nan a \<and> \<not> is_nan b \<and> valof a = valof b)"

text \<open>
  A numeric constant of the source is an exact number converted to the nearest
  \<open>float64\<close>; so are the conversions \<open>float64(i)\<close> of an \<open>int\<close> and of a \<open>uint64\<close>.
\<close>

definition f64 :: "real \<Rightarrow> float64" where
  "f64 r = fround r"

definition f64_of_int :: "int \<Rightarrow> float64" where
  "f64_of_int i = fround (of_int i)"

definition f64_of_u64 :: "64 word \<Rightarrow> float64" where
  "f64_of_u64 n = fround (real (unat n))"

text \<open>
  \<open>int(x)\<close> drops the fraction (towards zero). Go leaves the result
  implementation-dependent when \<open>x\<close> is a NaN, an infinity or outside the 64-bit range of
  \<open>int\<close>; that is \<open>None\<close> here.
\<close>

definition trunc_real :: "real \<Rightarrow> int" where
  "trunc_real x = (if 0 \<le> x then \<lfloor>x\<rfloor> else \<lceil>x\<rceil>)"

definition f64_to_int :: "float64 \<Rightarrow> int option" where
  "f64_to_int x =
     (if is_nan x \<or> is_inf x then None
      else if - (2 ^ 63) \<le> trunc_real (valof x) \<and> trunc_real (valof x) < 2 ^ 63
        then Some (trunc_real (valof x))
      else None)"


lemmas f64_defs = pow2_def f_sign_def f_mag_def inf_mag_def is_nan_def is_inf_def is_zero_def
  mag_val_def valof_def mk_float_def f64_nan_def f64_inf_def bitlen.simps ilog2_def rne_def
  f_exp_def round_mag_def fround_def fneg_def fadd_def fsub_def fmul_def fdiv_def flt_def
  fge_def feq_def f64_def f64_of_int_def f64_of_u64_def trunc_real_def f64_to_int_def

subsection \<open>\<open>time.Duration\<close>: signed 64-bit nanoseconds\<close>

type_synonym Duration = "64 word"

text \<open>Go's \<open>/\<close> on \<open>int64\<close> truncates towards zero; \<open>*\<close> wraps around.\<close>

definition div64 :: "64 word \<Rightarrow> 64 word \<Rightarrow> 64 word" where
  "div64 a b = word_of_int (sint a sdiv sint b)"

definition Second :: Duration where
  "Second = 1000000000"

section \<open>internal/types: the result records\<close>

record KeccakResult =
  Keccak_HashesPerSecond :: float64
  Keccak_TotalHashes :: "64 word"
  Keccak_DataProcessedMB :: float64
  Keccak_Duration :: Duration
  Keccak_Rating :: string

record ECDSAResult =
  ECDSA_SignaturesPerSecond :: float64
  ECDSA_VerificationsPerSecond :: float64
  ECDSA_RecoveriesPerSecond :: float64
  ECDSA_Duration :: Duration
  ECDSA_Rating :: string

record BLSResult =
  BLS_SignaturesPerSecond :: float64
  BLS_VerificationsPerSecond :: float64
  BLS_AggregationsPerSecond :: float64
  BLS_Duration :: Duration
  BLS_Rating :: string

record BN256Result =
  BN256_G1AddsPerSecond :: float64
  BN256_G1ScalarMulsPerSecond :: float64
  BN256_PairingsPerSecond :: float64
  BN256_Duration :: Duration
  BN256_Rating :: string

record CPUResults =
  Keccak :: KeccakResult
  ECDSA :: ECDSAResult
  BLS :: BLSResult
  BN256 :: BN256Result

record TrieResult =
  Trie_InsertsPerSecond :: float64
  Trie_LookupsPerSecond :: float64
  Trie_HashesPerSecond :: float64
  Trie_PeakMemoryMB :: float64
  Trie_Duration :: Duration
  Trie_Rating :: string

record PoolResult =
  Pool_AllocationsPerSecond :: float64
  Pool_ReusesPerSecond :: float64
  Pool_MemoryChurnMB :: float64
  Pool_Duration :: Duration
  Pool_Rating :: string

record StateCacheResult =
  StateCache_CacheHitsPerSecond :: float64
  StateCache_CacheMissesPerSecond :: float64
  StateCache_HitRatio :: float64
  StateCache_ThroughputMBPerSec :: float64
  StateCache_Duration :: Duration
  StateCache_Rating :: string

record MemoryResults =
  Trie :: TrieResult
  Pool :: PoolResult
  StateCache :: StateCacheResult

record SequentialResult =
  Sequential_WriteSpeedMBps :: float64
  Sequential_ReadSpeedMBps :: float64
  Sequential_Duration :: Duration
  Sequential_Rating :: string

record RandomResult =
  Random_ReadIOPS :: float64
  Random_WriteIOPS :: float64
  Random_AvgLatencyUs :: float64
  Random_Duration :: Duration
  Random_Rating :: string

record BatchResult =
  Batch_BatchesPerSecond :: float64
  Batch_ThroughputMBps :: float64
  Batch_AvgBatchLatencyMs :: float64
  Batch_Duration :: Duration
  Batch_Rating :: string

record DiskResults =
  Sequential :: SequentialResult
  Random :: RandomResult
  Batch :: BatchResult

record Results =
  CPU :: CPUResults
  Memory :: MemoryResults
  Disk :: DiskResults

section \<open>internal/report: scoring and verdict\<close>


record Verdict =
  OverallScore :: int
  ExecutionClient :: string
  ConsensusClient :: string
  Recommendations :: "string list"

text \<open>\<open>scoreMetric\<close>: the first case of the \<open>switch\<close> that holds decides.\<close>

definition scoreMetric :: "float64 \<Rightarrow> float64 \<Rightarrow> float64 \<Rightarrow> float64 \<Rightarrow> float64 \<Rightarrow> float64" where
  "scoreMetric val poor marginal good excellent =
     (if fge val excellent then f64 100
      else if fge val good then
        fadd (f64 75) (fdiv (fmul (f64 25) (fsub val good)) (fsub excellent good))
      else if fge val marginal then
        fadd (f64 50) (fdiv (fmul (f64 25) (fsub val marginal)) (fsub good marginal))
      else if fge val poor then
        fadd (f64 25) (fdiv (fmul (f64 25) (fsub val poor)) (fsub marginal poor))
      else fdiv (fmul (f64 25) val) poor)"






text \<open>The advisory texts of \<open>determineVerdict\<close>: four baseline lists, three conditional lines.\<close>

definition readyAdvisories :: "string list" where
  "readyAdvisories =
     [''Your hardware meets Ethereum node requirements.'',
      ''Both Geth and Nimbus should run well on this system.'']"

definition consensusOnlyAdvisories :: "string list" where
  "consensusOnlyAdvisories =
     [''Consensus client (Nimbus) should work well.'',
      ''Execution client (Geth) may struggle during high network activity.'',
      ''Consider using checkpoint sync to reduce initial sync time.'']"

definition belowSpecAdvisories :: "string list" where
  "belowSpecAdvisories =
     [''Hardware is below recommended specifications.'',
      ''Initial sync will be slow (potentially weeks).'',
      ''Consider using an external execution client RPC.'']"

definition unsuitableAdvisories :: "string list" where
  "unsuitableAdvisories =
     [''Hardware does not meet minimum requirements for execution client.'',
      ''Consider upgrading to NVMe storage.'',
      ''A more powerful single-board computer is recommended.'']"

definition randomIOAdvisory :: string where
  "randomIOAdvisory = ''Random I/O performance is low. NVMe SSD strongly recommended.''"

definition ecdsaAdvisory :: string where
  "ecdsaAdvisory =
     ''ECDSA verification is slow. This may cause transaction validation delays.''"

definition blsAdvisory :: string where
  "blsAdvisory = ''BLS signature verification is slow. Consensus layer may lag.''"

definition determineVerdict :: "int \<Rightarrow> Results \<Rightarrow> Verdict" where
  "determineVerdict score results =
     (let verdict = \<lparr>OverallScore = score, ExecutionClient = [], ConsensusClient = [],
                      Recommendations = []\<rparr>;
          verdict =
            (if 80 \<le> score then
               verdict\<lparr>ExecutionClient := ''Ready'', ConsensusClient := ''Ready'',
                  Recommendations := Recommendations verdict @ readyAdvisories\<rparr>
             else if 60 \<le> score then
               verdict\<lparr>ExecutionClient := ''Marginal'', ConsensusClient := ''Ready'',
                  Recommendations := Recommendations verdict @ consensusOnlyAdvisories\<rparr>
             else if 40 \<le> score then
               verdict\<lparr>ExecutionClient := ''Marginal'', ConsensusClient := ''Marginal'',
                  Recommendations := Recommendations verdict @ belowSpecAdvisories\<rparr>
             else
               verdict\<lparr>ExecutionClient := ''Unsuitable'', ConsensusClient := ''Marginal'',
                  Recommendations := Recommendations verdict @ unsuitableAdvisories\<rparr>);
          verdict =
            (if flt (Random_ReadIOPS (Random (Disk results))) (f64 10000) then
               verdict\<lparr>Recommendations := Recommendations verdict @ [randomIOAdvisory]\<rparr>
             else verdict);
          verdict =
            (if flt (ECDSA_VerificationsPerSecond (ECDSA (CPU results))) (f64 500) then
               verdict\<lparr>Recommendations := Recommendations verdict @ [ecdsaAdvisory]\<rparr>
             else verdict);
          verdict =
            (if flt (BLS_VerificationsPerSecond (BLS (CPU results))) (f64 100) then
               verdict\<lparr>Recommendations := Recommendations verdict @ [blsAdvisory]\<rparr>
             else verdict)
      in verdict)"

text \<open>The baseline advisories of the tier a score falls in.\<close>

definition tierRecommendations :: "int \<Rightarrow> string list" where
  "tierRecommendations score =
     (if 80 \<le> score then readyAdvisories
      else if 60 \<le> score then consensusOnlyAdvisories
      else if 40 \<le> score then belowSpecAdvisories
      else unsuitableAdvisories)"

text \<open>
  The zero value \<open>types.Results{}\<close>: every rate \<open>+0\<close>, every counter and duration 0,
  every rating the empty string.
\<close>

definition zeroResults :: Results where
  "zeroResults =
     \<lparr>CPU = \<lparr>Keccak = \<lparr>Keccak_HashesPerSecond = 0, Keccak_TotalHashes = 0,
                Keccak_DataProcessedMB = 0, Keccak_Duration = 0, Keccak_Rating = []\<rparr>,
              ECDSA = \<lparr>ECDSA_SignaturesPerSecond = 0, ECDSA_VerificationsPerSecond = 0,
                ECDSA_RecoveriesPerSecond = 0, ECDSA_Duration = 0, ECDSA_Rating = []\<rparr>,
              BLS = \<lparr>BLS_SignaturesPerSecond = 0, BLS_VerificationsPerSecond = 0,
                BLS_AggregationsPerSecond = 0, BLS_Duration = 0, BLS_Rating = []\<rparr>,
              BN256 = \<lparr>BN256_G1AddsPerSecond = 0, BN256_G1ScalarMulsPerSecond = 0,
                BN256_PairingsPerSecond = 0, BN256_Duration = 0, BN256_Rating = []\<rparr>\<rparr>,
      Memory = \<lparr>Trie = \<lparr>Trie_InsertsPerSecond = 0, Trie_LookupsPerSecond = 0,
                Trie_HashesPerSecond = 0, Trie_PeakMemoryMB = 0, Trie_Duration = 0,
                Trie_Rating = []\<rparr>,
              Pool = \<lparr>Pool_AllocationsPerSecond = 0, Pool_ReusesPerSecond = 0,
                Pool_MemoryChurnMB = 0, Pool_Duration = 0, Pool_Rating = []\<rparr>,
              StateCache = \<lparr>StateCache_CacheHitsPerSecond = 0,
                StateCache_CacheMissesPerSecond = 0, StateCache_HitRatio = 0,
                StateCache_ThroughputMBPerSec = 0, StateCache_Duration = 0,
                StateCache_Rating = []\<rparr>\<rparr>,
      Disk = \<lparr>Sequential = \<lparr>Sequential_WriteSpeedMBps = 0, Sequential_ReadSpeedMBps = 0,
                Sequential_Duration = 0, Sequential_Rating = []\<rparr>,
              Random = \<lparr>Random_ReadIOPS = 0, Random_WriteIOPS = 0, Random_AvgLatencyUs = 0,
                Random_Duration = 0, Random_Rating = []\<rparr>,
              Batch = \<lparr>Batch_BatchesPerSecond = 0, Batch_ThroughputMBps = 0,
                Batch_AvgBatchLatencyMs = 0, Batch_Duration = 0, Batch_Rating = []\<rparr>\<rparr>\<rparr>"

section \<open>internal/benchmark: configuration and time budgets\<close>

record Config =
  CPUDuration :: Duration
  MemoryDuration :: Duration
  DiskDuration :: Duration
  TestDir :: string
  Verbose :: bool

definition DefaultConfig :: Config where
  "DefaultConfig = \<lparr>CPUDuration = 60 * Second, MemoryDuration = 60 * Second,
     DiskDuration = 60 * Second, TestDir = ''.'', Verbose = False\<rparr>"

definition QuickConfig :: Config where
  "QuickConfig = \<lparr>CPUDuration = 20 * Second, MemoryDuration = 20 * Second,
     DiskDuration = 20 * Second, TestDir = ''.'', Verbose = False\<rparr>"

record CPUTimeBudget =
  Keccak256 :: Duration
  ECDSA_budget :: Duration
  BLS_budget :: Duration
  BN256_budget :: Duration

definition GetCPUTimeBudget :: "Config \<Rightarrow> CPUTimeBudget" where
  "GetCPUTimeBudget c =
     (let total = CPUDuration c
      in \<lparr>Keccak256 = div64 (total * 15) 60,
          ECDSA_budget = div64 (total * 20) 60,
          BLS_budget = div64 (total * 15) 60,
          BN256_budget = div64 (total * 10) 60\<rparr>)"

section \<open>The clock and \<open>time.Duration\<close> conversions\<close>

text \<open>
  \<open>%\<close> on \<open>int64\<close> is the remainder of the truncating division. \<open>Seconds\<close> and
  \<open>Microseconds\<close> are the methods of Go's \<open>time.Duration\<close>:
  \<open>float64(d / Second) + float64(d % Second) / 1e9\<close> and \<open>int64(d) / 1e3\<close>.
\<close>

definition mod64 :: "64 word \<Rightarrow> 64 word \<Rightarrow> 64 word" where
  "mod64 a b = word_of_int (sint a smod sint b)"

definition Seconds :: "Duration \<Rightarrow> float64" where
  "Seconds d = fadd (f64_of_int (sint (div64 d Second)))
                    (fdiv (f64_of_int (sint (mod64 d Second))) (f64 1000000000))"

definition Microseconds :: "Duration \<Rightarrow> 64 word" where
  "Microseconds d = div64 d 1000"

section \<open>internal/cpu: the Keccak256 and ECDSA probes\<close>

text \<open>
  A probe reads the clock and calls operations that may fail; both are inputs of the
  model. The clock is the list of the values \<open>time.Since(start)\<close> returns, in the order
  the probe asks for them: one for every test of the loop condition and one more for the
  elapsed time after the loop. A probe that asks for more readings than the list holds
  has no result (\<open>None\<close>).
\<close>

definition inputSizes :: "nat list" where
  "inputSizes = [32, 64, 128, 550]"

text \<open>The inner \<open>for\<close> of \<open>BenchmarkKeccak256\<close>: one hash per input size.\<close>

definition keccak_round :: "64 word \<times> 64 word \<Rightarrow> 64 word \<times> 64 word" where
  "keccak_round acc =
     foldl (\<lambda>(totalHashes, totalBytes) size. (totalHashes + 1, totalBytes + of_nat size))
       acc inputSizes"

fun keccak_loop ::
  "Duration \<Rightarrow> Duration list \<Rightarrow> 64 word \<times> 64 word
     \<Rightarrow> ((64 word \<times> 64 word) \<times> Duration list) option" where
  "keccak_loop duration [] acc = None"
| "keccak_loop duration (since # clock) acc =
     (if since <s duration then keccak_loop duration clock (keccak_round acc)
      else Some (acc, clock))"

definition rateKeccak :: "float64 \<Rightarrow> string" where
  "rateKeccak hps =
     (if fge hps (f64 500000) then ''Excellent''
      else if fge hps (f64 200000) then ''Good''
      else if fge hps (f64 100000) then ''Adequate''
      else if fge hps (f64 50000) then ''Marginal''
      else ''Poor'')"

definition BenchmarkKeccak256 :: "Duration \<Rightarrow> bool \<Rightarrow> Duration list \<Rightarrow> KeccakResult option" where
  "BenchmarkKeccak256 duration verbose clock =
     (case keccak_loop duration clock (0, 0) of
        None \<Rightarrow> None
      | Some ((totalHashes, totalBytes), clock') \<Rightarrow>
          (case clock' of
             [] \<Rightarrow> None
           | elapsed # _ \<Rightarrow>
               (let hashesPerSec = fdiv (f64_of_u64 totalHashes) (Seconds elapsed);
                    dataMB = fdiv (f64_of_u64 totalBytes) (f64 (1024 * 1024))
                in Some \<lparr>Keccak_HashesPerSecond = hashesPerSec,
                         Keccak_TotalHashes = totalHashes,
                         Keccak_DataProcessedMB = dataMB,
                         Keccak_Duration = elapsed,
                         Keccak_Rating = rateKeccak hashesPerSec\<rparr>)))"





section \<open>internal/disk: the random I/O probe\<close>

text \<open>
  A phase of \<open>BenchmarkRandom\<close>: every pass adds the latency of its operation to the
  total, and counts the operation when it returns no error. The second list holds the
  latency and the outcome of each operation. The file contents, the offsets and the
  removal of the test file have no part in the result.
\<close>

fun io_loop ::
  "Duration \<Rightarrow> Duration list \<Rightarrow> (Duration \<times> bool) list \<Rightarrow> 64 word \<times> Duration
     \<Rightarrow> ((64 word \<times> Duration) \<times> Duration list) option" where
  "io_loop duration [] ops acc = None"
| "io_loop duration (since # clock) ops (n, totalLatency) =
     (if since <s duration then
        (case ops of
           [] \<Rightarrow> None
         | (latency, ok) # ops' \<Rightarrow>
             io_loop duration clock ops' (if ok then n + 1 else n, totalLatency + latency))
      else Some ((n, totalLatency), clock))"

definition rateRandom :: "float64 \<Rightarrow> float64 \<Rightarrow> string" where
  "rateRandom readIOPS writeIOPS =
     (let score = fadd (fmul readIOPS (f64 (7 / 10))) (fmul writeIOPS (f64 (3 / 10)))
      in if fge score (f64 50000) then ''Excellent''
         else if fge score (f64 20000) then ''Good''
         else if fge score (f64 10000) then ''Adequate''
         else if fge score (f64 5000) then ''Marginal''
         else ''Poor'')"

record RandomEnv =
  openFileErr :: "string option"
  truncateErr :: "string option"
  readClock :: "Duration list"
  readOps :: "(Duration \<times> bool) list"
  writeClock :: "Duration list"
  writeOps :: "(Duration \<times> bool) list"

definition BenchmarkRandom :: "string \<Rightarrow> Duration \<Rightarrow> bool \<Rightarrow> RandomEnv \<Rightarrow> RandomResult option" where
  "BenchmarkRandom testDir duration verbose env =
     (case openFileErr env of
        Some err \<Rightarrow>
          Some \<lparr>Random_ReadIOPS = 0, Random_WriteIOPS = 0, Random_AvgLatencyUs = 0,
                Random_Duration = 0, Random_Rating = ''Error: '' @ err\<rparr>
      | None \<Rightarrow>
          (case truncateErr env of
             Some err \<Rightarrow>
               Some \<lparr>Random_ReadIOPS = 0, Random_WriteIOPS = 0, Random_AvgLatencyUs = 0,
                     Random_Duration = 0, Random_Rating = ''Error: '' @ err\<rparr>
           | None \<Rightarrow>
          (case io_loop (div64 (duration * 3) 5) (readClock env) (readOps env) (0, 0) of
             None \<Rightarrow> None
           | Some ((readCount, totalReadLatency), []) \<Rightarrow> None
           | Some ((readCount, totalReadLatency), readElapsed # _) \<Rightarrow>
          (case io_loop (div64 (duration * 2) 5) (writeClock env) (writeOps env) (0, 0) of
             None \<Rightarrow> None
           | Some ((writeCount, totalWriteLatency), []) \<Rightarrow> None
           | Some ((writeCount, totalWriteLatency), writeElapsed # _) \<Rightarrow>
               (let readIOPS = fdiv (f64_of_u64 readCount) (Seconds readElapsed);
                    writeIOPS = fdiv (f64_of_u64 writeCount) (Seconds writeElapsed);
                    totalOps = readCount + writeCount;
                    totalLatency = totalReadLatency + totalWriteLatency;
                    avgLatencyUs = fdiv (f64_of_int (sint (Microseconds totalLatency)))
                                        (f64_of_u64 totalOps);
                    totalDuration = readElapsed + writeElapsed
                in Some \<lparr>Random_ReadIOPS = readIOPS,
                         Random_WriteIOPS = writeIOPS,
                         Random_AvgLatencyUs = avgLatencyUs,
                         Random_Duration = totalDuration,
                         Random_Rating = rateRandom readIOPS writeIOPS\<rparr>)))))"

section \<open>Rating labels and sample environments\<close>


text \<open>
  Environments used below: a disk whose clock already stands at the phase duration when
  the loops start, so that no operation is run; a test file that cannot be opened; a key
  generation that fails.
\<close>

definition idleRandomEnv :: RandomEnv where
  "idleRandomEnv = \<lparr>openFileErr = None, truncateErr = None, readClock = [0, 100], readOps = [],
     writeClock = [0, 100], writeOps = []\<rparr>"




text \<open>
  A disk on which the one read and the one write that are run both fail, after 2500 ns
  and 1500 ns, with an allotted duration of 5000 ns.
\<close>

definition failingRandomEnv :: RandomEnv where
  "failingRandomEnv = \<lparr>openFileErr = None, truncateErr = None,
     readClock = [0, 3000, 3100], readOps = [(2500, False)],
     writeClock = [0, 2000, 2050], writeOps = [(1500, False)]\<rparr>"

section \<open>Properties of the \<open>float64\<close> model\<close>

lemma pow2_powr: "pow2 k = 2 powr (real_of_int k)"
proof (cases "0 \<le> k")
  case True
  then obtain n where k: "k = int n" by (metis nonneg_int_cases)
  have "2 powr (real n) = (2::real) ^ n"
    by (simp only: powr_realpow zero_less_numeral)
  then show ?thesis by (simp add: pow2_def k)
next
  case False
  then obtain n where k: "k = - int n" and n: "0 < n"
    by (metis neg_int_cases not_le)
  have "2 powr (- real n) = 1 / 2 powr (real n)"
    by (simp only: powr_minus_divide)
  also have "\<dots> = 1 / (2::real) ^ n"
    by (simp only: powr_realpow zero_less_numeral)
  finally show ?thesis using n by (simp add: pow2_def k)
qed

lemma pow2_pos [simp]: "0 < pow2 k"
  by (simp add: pow2_powr)

lemma pow2_add: "pow2 (a + b) = pow2 a * pow2 b"
  by (simp add: pow2_powr powr_add)

lemma pow2_diff: "pow2 (a - b) = pow2 a / pow2 b"
  by (simp add: pow2_powr powr_diff)

lemma pow2_mono: "a \<le> b \<Longrightarrow> pow2 a \<le> pow2 b"
  by (simp add: pow2_powr)

lemma pow2_less_iff: "pow2 a < pow2 b \<longleftrightarrow> a < b"
  by (simp add: pow2_powr)

lemma pow2_le_iff: "pow2 a \<le> pow2 b \<longleftrightarrow> a \<le> b"
  by (simp add: pow2_powr)

lemma pow2_nat: "pow2 (int n) = 2 ^ n"
  by (simp add: pow2_def)

lemma f_mag_less: "f_mag w < 2 ^ 63"
  by (simp add: f_mag_def)

lemma unat_word64_of_nat: "n < 2 ^ 64 \<Longrightarrow> unat (of_nat n :: 64 word) = n"
  by (simp add: unat_of_nat take_bit_eq_mod)

lemma unat_mk_float: "b < 2 ^ 63 \<Longrightarrow> unat (mk_float s b) = (if s then 2 ^ 63 else 0) + b"
  unfolding mk_float_def by (rule unat_word64_of_nat) simp

lemma f_mag_mk_float: "b < 2 ^ 63 \<Longrightarrow> f_mag (mk_float s b) = b"
  by (simp add: f_mag_def unat_mk_float)

lemma f_sign_mk_float: "b < 2 ^ 63 \<Longrightarrow> f_sign (mk_float s b) = s"
  by (simp add: f_sign_def unat_mk_float)

lemma mag_val_sub: "b < 2 ^ 52 \<Longrightarrow> mag_val b = real b * pow2 (- 1074)"
  by (simp add: mag_val_def)

lemma mag_val_norm:
  "2 ^ 52 \<le> b \<Longrightarrow> mag_val b = real (2 ^ 52 + b mod 2 ^ 52) * pow2 (int (b div 2 ^ 52) - 1075)"
  by (simp add: mag_val_def div_eq_0_iff)

lemma mag_val_nonneg: "0 \<le> mag_val b"
  by (simp add: mag_val_def less_imp_le)

lemma mag_val_upper_sub: "b < 2 ^ 52 \<Longrightarrow> mag_val b < pow2 (- 1022)"
proof -
  assume b: "b < 2 ^ 52"
  then have "real b < 2 ^ 52" by (metis of_nat_less_iff of_nat_numeral of_nat_power)
  then have "real b * pow2 (- 1074) < 2 ^ 52 * pow2 (- 1074)" by simp
  also have "\<dots> = pow2 52 * pow2 (- 1074)" by (simp add: pow2_def)
  also have "\<dots> = pow2 (- 1022)" by (simp add: pow2_add [symmetric])
  finally show ?thesis using b by (simp add: mag_val_sub)
qed

lemma mag_val_lower_norm: "2 ^ 52 \<le> b \<Longrightarrow> pow2 (int (b div 2 ^ 52) - 1023) \<le> mag_val b"
proof -
  assume b: "2 ^ 52 \<le> b"
  have "pow2 (int (b div 2 ^ 52) - 1023) = pow2 52 * pow2 (int (b div 2 ^ 52) - 1075)"
    by (simp add: pow2_add [symmetric])
  also have "\<dots> = 2 ^ 52 * pow2 (int (b div 2 ^ 52) - 1075)" by (simp add: pow2_def)
  also have "\<dots> \<le> real (2 ^ 52 + b mod 2 ^ 52) * pow2 (int (b div 2 ^ 52) - 1075)"
    by (rule mult_right_mono) (simp_all add: less_imp_le)
  finally show ?thesis using b by (simp add: mag_val_norm)
qed

lemma mag_val_upper_norm: "2 ^ 52 \<le> b \<Longrightarrow> mag_val b < pow2 (int (b div 2 ^ 52) - 1022)"
proof -
  assume b: "2 ^ 52 \<le> b"
  have "b mod 2 ^ 52 < 2 ^ 52" by simp
  then have "2 ^ 52 + b mod 2 ^ 52 < (2 ^ 53 :: nat)" by simp
  then have "real (2 ^ 52 + b mod 2 ^ 52) < 2 ^ 53"
    by (metis of_nat_less_iff of_nat_numeral of_nat_power)
  then have "real (2 ^ 52 + b mod 2 ^ 52) * pow2 (int (b div 2 ^ 52) - 1075)
      < 2 ^ 53 * pow2 (int (b div 2 ^ 52) - 1075)"
    by simp
  also have "\<dots> = pow2 53 * pow2 (int (b div 2 ^ 52) - 1075)" by (simp add: pow2_def)
  also have "\<dots> = pow2 (int (b div 2 ^ 52) - 1022)" by (simp add: pow2_add [symmetric])
  finally show ?thesis using b by (simp add: mag_val_norm)
qed

lemma mod_less_of_div_eq:
  fixes b c k :: nat
  shows "b < c \<Longrightarrow> b div k = c div k \<Longrightarrow> b mod k < c mod k"
  by (metis div_mult_mod_eq nat_add_left_cancel_less)

lemma mag_val_strict_mono:
  assumes "b < c"
  shows "mag_val b < mag_val c"
proof -
  have le: "b div 2 ^ 52 \<le> c div 2 ^ 52" using assms by (simp add: div_le_mono)
  show ?thesis
  proof (cases "b div 2 ^ 52 = c div 2 ^ 52")
    case True
    from assms True have m: "b mod 2 ^ 52 < c mod 2 ^ 52" by (rule mod_less_of_div_eq)
    show ?thesis
    proof (cases "b < 2 ^ 52")
      case True
      with \<open>b div 2 ^ 52 = c div 2 ^ 52\<close> have "c < 2 ^ 52" by (simp add: div_eq_0_iff)
      with True assms show ?thesis by (simp add: mag_val_sub)
    next
      case False
      with assms have "\<not> c < 2 ^ 52" by simp
      with False m True show ?thesis by (simp add: mag_val_norm)
    qed
  next
    case False
    with le have lt: "b div 2 ^ 52 < c div 2 ^ 52" by simp
    then have c: "2 ^ 52 \<le> c" by (metis div_less not_less not_less_zero)
    have "mag_val b < pow2 (int (c div 2 ^ 52) - 1023)"
    proof (cases "b < 2 ^ 52")
      case True
      have "pow2 (- 1022) \<le> pow2 (int (c div 2 ^ 52) - 1023)"
        using lt by (simp add: pow2_le_iff)
      with mag_val_upper_sub [OF True] show ?thesis by simp
    next
      case False
      then have "2 ^ 52 \<le> b" by simp
      then have "mag_val b < pow2 (int (b div 2 ^ 52) - 1022)"
        by (rule mag_val_upper_norm)
      moreover have "pow2 (int (b div 2 ^ 52) - 1022) \<le> pow2 (int (c div 2 ^ 52) - 1023)"
        using lt by (simp add: pow2_le_iff)
      ultimately show ?thesis by simp
    qed
    with mag_val_lower_norm [OF c] show ?thesis by simp
  qed
qed

lemma mag_val_mono: "b \<le> c \<Longrightarrow> mag_val b \<le> mag_val c"
  using mag_val_strict_mono [of b c] by (cases "b = c") (simp_all add: less_imp_le)

lemma mag_val_less_iff: "mag_val b < mag_val c \<longleftrightarrow> b < c"
  using mag_val_strict_mono [of b c] mag_val_mono [of c b] by (auto simp: not_less [symmetric])

lemma mag_val_le_iff: "mag_val b \<le> mag_val c \<longleftrightarrow> b \<le> c"
  using mag_val_less_iff [of c b] by (auto simp: not_less [symmetric])

lemma mag_val_0 [simp]: "mag_val 0 = 0"
  by (simp add: mag_val_def)

lemma mag_val_eq_0_iff: "mag_val b = 0 \<longleftrightarrow> b = 0"
  using mag_val_less_iff [of 0 b] by auto

lemma mag_val_1: "mag_val 1 = pow2 (- 1074)"
  by (simp add: mag_val_def)

lemma mag_val_inf: "mag_val inf_mag = 2 ^ 1024"
  by (simp add: mag_val_def inf_mag_def pow2_def)

lemma mag_val_grid: "\<exists>k::nat. mag_val b = real k * pow2 (- 1074)"
proof (cases "b < 2 ^ 52")
  case True
  then show ?thesis by (auto simp: mag_val_sub)
next
  case False
  then have b: "2 ^ 52 \<le> b" by simp
  then have "1 \<le> b div 2 ^ 52" by (metis div_greater_zero_iff less_eq_Suc_le One_nat_def zero_less_numeral zero_less_power)
  then obtain e where e: "b div 2 ^ 52 = Suc e" by (metis Suc_le_D One_nat_def)
  have "int (b div 2 ^ 52) - 1075 = int e + (- 1074)"
    by (simp only: e)
  then have "pow2 (int (b div 2 ^ 52) - 1075) = pow2 (int e + (- 1074))"
    by (rule arg_cong)
  also have "\<dots> = 2 ^ e * pow2 (- 1074)"
    by (simp only: pow2_add pow2_nat)
  finally have "mag_val b = real ((2 ^ 52 + b mod 2 ^ 52) * 2 ^ e) * pow2 (- 1074)"
    using b by (simp add: mag_val_norm)
  then show ?thesis by blast
qed

lemma valof_grid: "\<exists>k::int. valof w = of_int k * pow2 (- 1074)"
proof -
  obtain k :: nat where k: "mag_val (f_mag w) = real k * pow2 (- 1074)"
    using mag_val_grid by blast
  show ?thesis
  proof (cases "f_sign w")
    case True
    with k have "valof w = of_int (- int k) * pow2 (- 1074)" by (simp add: valof_def)
    then show ?thesis by blast
  next
    case False
    with k have "valof w = of_int (int k) * pow2 (- 1074)" by (simp add: valof_def)
    then show ?thesis by blast
  qed
qed

lemma valof_diff_ge:
  assumes "valof a < valof b"
  shows "pow2 (- 1074) \<le> valof b - valof a"
proof -
  obtain k l :: int where k: "valof a = of_int k * pow2 (- 1074)"
    and l: "valof b = of_int l * pow2 (- 1074)"
    using valof_grid by blast
  from assms have "of_int k * pow2 (- 1074) < of_int l * pow2 (- 1074)" by (simp add: k l)
  then have "real_of_int k < real_of_int l" by (simp add: mult_less_cancel_right less_imp_le)
  then have "1 \<le> l - k" by simp
  then have "1 \<le> real_of_int (l - k)" by (metis of_int_1_le_iff)
  then have "1 * pow2 (- 1074) \<le> real_of_int (l - k) * pow2 (- 1074)"
    by (rule mult_right_mono) (simp add: less_imp_le)
  then show ?thesis by (simp add: k l algebra_simps)
qed

lemma rne_floor_cases: "rne x = \<lfloor>x\<rfloor> \<or> rne x = \<lfloor>x\<rfloor> + 1"
  by (simp add: rne_def)

lemma rne_ge: "real_of_int m \<le> x \<Longrightarrow> m \<le> rne x"
proof -
  assume "real_of_int m \<le> x"
  then have "m \<le> \<lfloor>x\<rfloor>" by (simp add: le_floor_iff)
  with rne_floor_cases [of x] show ?thesis by auto
qed

lemma rne_of_int [simp]: "rne (of_int n) = n"
  by (simp add: rne_def)

lemma rne_le: "x \<le> real_of_int m \<Longrightarrow> rne x \<le> m"
proof (cases "x = real_of_int m")
  case True
  then show ?thesis by simp
next
  case False
  assume "x \<le> real_of_int m"
  with False have "x < real_of_int m" by simp
  then have "\<lfloor>x\<rfloor> < m" by (simp add: floor_less_iff)
  with rne_floor_cases [of x] show ?thesis by auto
qed

lemma rne_err: "\<bar>real_of_int (rne x) - x\<bar> \<le> 1 / 2"
proof -
  have "real_of_int \<lfloor>x\<rfloor> \<le> x" "x < real_of_int \<lfloor>x\<rfloor> + 1" by linarith+
  then show ?thesis by (auto simp: rne_def abs_le_iff not_less)
qed

lemma rne_mono:
  assumes "x \<le> y"
  shows "rne x \<le> rne y"
proof (cases "\<lfloor>x\<rfloor> = \<lfloor>y\<rfloor>")
  case True
  with assms show ?thesis by (auto simp: rne_def)
next
  case False
  with assms have "\<lfloor>x\<rfloor> < \<lfloor>y\<rfloor>" by (simp add: floor_mono order.not_eq_order_implies_strict)
  moreover have "rne x \<le> \<lfloor>x\<rfloor> + 1" "\<lfloor>y\<rfloor> \<le> rne y"
    using rne_floor_cases [of x] rne_floor_cases [of y] by auto
  ultimately show ?thesis by linarith
qed

lemma f_exp_ge_1: "1 \<le> f_exp a"
  by (simp add: f_exp_def)

lemma round_mag_le_inf: "round_mag a \<le> inf_mag"
  by (simp add: round_mag_def)

lemma round_mag_less: "round_mag a < 2 ^ 63"
proof -
  have "inf_mag < 2 ^ 63" by (simp add: inf_mag_def)
  with round_mag_le_inf [of a] show ?thesis by (rule le_less_trans)
qed

lemma round_mag_pos:
  assumes "pow2 (- 1074) \<le> a"
  shows "1 \<le> round_mag a"
proof -
  have a: "0 < a" using assms pow2_pos [of "- 1074"] by linarith
  have q: "0 \<le> a / pow2 (f_exp a - 1075)" using a by (simp add: less_imp_le)
  have "1 \<le> (f_exp a - 1) * 2 ^ 52 + rne (a / pow2 (f_exp a - 1075))"
  proof (cases "f_exp a = 1")
    case True
    from assms have "1 \<le> a / pow2 (- 1074)" by (simp add: pos_le_divide_eq)
    then have "1 \<le> rne (a / pow2 (- 1074))" using rne_ge [of 1] by simp
    with True show ?thesis by simp
  next
    case False
    with f_exp_ge_1 [of a] have "1 \<le> f_exp a - 1" by simp
    then have "1 * 2 ^ 52 \<le> (f_exp a - 1) * 2 ^ 52" by (rule mult_right_mono) simp
    moreover have "0 \<le> rne (a / pow2 (f_exp a - 1075))" using q rne_ge [of 0] by simp
    ultimately show ?thesis by simp
  qed
  then have "1 \<le> nat ((f_exp a - 1) * 2 ^ 52 + rne (a / pow2 (f_exp a - 1075)))" by simp
  moreover have "1 \<le> inf_mag" by (simp add: inf_mag_def)
  ultimately show ?thesis using a by (simp add: round_mag_def)
qed

lemma f_mag_0 [simp]: "f_mag 0 = 0" by (simp add: f_mag_def)
lemma f_sign_0 [simp]: "\<not> f_sign 0" by (simp add: f_sign_def)
lemma valof_0 [simp]: "valof 0 = 0" by (simp add: valof_def)
lemma mk_float_0 [simp]: "mk_float False 0 = 0" by (simp add: mk_float_def)
lemma round_mag_0 [simp]: "round_mag 0 = 0" by (simp add: round_mag_def)
lemma is_nan_0 [simp]: "\<not> is_nan 0" by (simp add: is_nan_def)
lemma is_inf_0 [simp]: "\<not> is_inf 0" by (simp add: is_inf_def inf_mag_def)
lemma is_zero_0 [simp]: "is_zero 0" by (simp add: is_zero_def)

lemma is_nan_mk_float: "b \<le> inf_mag \<Longrightarrow> \<not> is_nan (mk_float s b)"
proof -
  assume b: "b \<le> inf_mag"
  moreover have "inf_mag < 2 ^ 63" by (simp add: inf_mag_def)
  ultimately have "b < 2 ^ 63" by (rule le_less_trans)
  with b show ?thesis by (simp add: is_nan_def f_mag_mk_float)
qed

lemma valof_pos_sign: "0 < valof w \<Longrightarrow> \<not> f_sign w"
  using mag_val_nonneg [of "f_mag w"] by (auto simp: valof_def)

lemma valof_le_inf: "\<not> is_nan w \<Longrightarrow> valof w \<le> 2 ^ 1024"
proof -
  assume "\<not> is_nan w"
  then have "f_mag w \<le> inf_mag" by (simp add: is_nan_def)
  then have "mag_val (f_mag w) \<le> mag_val inf_mag" by (rule mag_val_mono)
  moreover have "- mag_val (f_mag w) \<le> mag_val (f_mag w)"
    using mag_val_nonneg [of "f_mag w"] by simp
  ultimately show ?thesis by (simp add: valof_def mag_val_inf)
qed

lemma valof_inf: "is_inf w \<Longrightarrow> \<not> f_sign w \<Longrightarrow> valof w = 2 ^ 1024"
  by (simp add: is_inf_def valof_def mag_val_inf)

lemma f_mag_fneg [simp]: "f_mag (fneg w) = f_mag w"
  unfolding fneg_def by (rule f_mag_mk_float) (rule f_mag_less)

lemma f_sign_fneg [simp]: "f_sign (fneg w) = (\<not> f_sign w)"
  unfolding fneg_def by (rule f_sign_mk_float) (rule f_mag_less)

lemma valof_fneg [simp]: "valof (fneg w) = - valof w"
  by (simp add: valof_def)

lemma is_nan_fneg [simp]: "is_nan (fneg w) = is_nan w"
  by (simp add: is_nan_def)

lemma is_inf_fneg [simp]: "is_inf (fneg w) = is_inf w"
  by (simp add: is_inf_def)

lemma fsub_self: "\<not> is_nan x \<Longrightarrow> \<not> is_inf x \<Longrightarrow> fsub x x = 0"
  by (simp add: fsub_def fadd_def)

lemma fmul_zero_right: "\<not> is_nan a \<Longrightarrow> \<not> is_inf a \<Longrightarrow> \<not> f_sign a \<Longrightarrow> fmul a 0 = 0"
  by (simp add: fmul_def)

lemma fdiv_zero_left: "\<not> is_nan d \<Longrightarrow> \<not> is_zero d \<Longrightarrow> \<not> f_sign d \<Longrightarrow> fdiv 0 d = 0"
  by (simp add: fdiv_def)

lemma fround_pos:
  assumes "pow2 (- 1074) \<le> x"
  shows "\<not> is_nan (fround x) \<and> \<not> is_zero (fround x) \<and> \<not> f_sign (fround x)"
proof -
  have x: "0 < x" using assms pow2_pos [of "- 1074"] by linarith
  then have ax: "\<bar>x\<bar> = x" by simp
  have "1 \<le> round_mag x" using assms by (rule round_mag_pos)
  then show ?thesis
    using x round_mag_less [of x] round_mag_le_inf [of x]
    by (simp add: fround_def ax is_nan_mk_float is_zero_def f_mag_mk_float f_sign_mk_float)
qed

text \<open>The difference of two positive values in increasing order is a positive number
  or \<open>+Inf\<close>, never zero and never a NaN.\<close>

lemma fsub_pos:
  assumes p: "flt (f64 0) p" and pm: "flt p m"
  shows "\<not> is_nan (fsub m p) \<and> \<not> is_zero (fsub m p) \<and> \<not> f_sign (fsub m p)"
proof -
  have z: "f64 0 = 0" by (simp add: f64_def fround_def)
  from p have p0: "0 < valof p" and np: "\<not> is_nan p" by (simp_all add: flt_def z)
  from pm have lt: "valof p < valof m" and nm: "\<not> is_nan m" by (simp_all add: flt_def)
  from p0 lt have m0: "0 < valof m" by simp
  from p0 have sp: "\<not> f_sign p" by (rule valof_pos_sign)
  from m0 have sm: "\<not> f_sign m" by (rule valof_pos_sign)
  have ip: "\<not> is_inf p"
  proof
    assume "is_inf p"
    with sp have "valof p = 2 ^ 1024" by (simp add: valof_inf)
    with lt valof_le_inf [OF nm] show False by simp
  qed
  show ?thesis
  proof (cases "is_inf m")
    case True
    with np nm ip have "fsub m p = m" by (simp add: fsub_def fadd_def)
    with True nm sm show ?thesis by (simp add: is_zero_def is_inf_def inf_mag_def)
  next
    case False
    from lt have "pow2 (- 1074) \<le> valof m - valof p" by (rule valof_diff_ge)
    then have "\<not> is_nan (fround (valof m - valof p)) \<and> \<not> is_zero (fround (valof m - valof p))
        \<and> \<not> f_sign (fround (valof m - valof p))"
      by (rule fround_pos)
    moreover from False np nm ip lt have "fsub m p = fround (valof m - valof p)"
      by (simp add: fsub_def fadd_def)
    ultimately show ?thesis by simp
  qed
qed

lemma f64_consts:
  "\<not> is_nan (f64 25)" "\<not> is_inf (f64 25)" "\<not> f_sign (f64 25)"
  "fadd (f64 25) 0 = f64 25" "fadd (f64 50) 0 = f64 50" "fadd (f64 75) 0 = f64 75"
  by (simp_all add: f64_defs)

lemma scoreMetric_band_start:
  assumes "flt (f64 0) lo" and "flt lo hi"
  shows "fdiv (fmul (f64 25) (fsub lo lo)) (fsub hi lo) = 0"
proof -
  have z: "f64 0 = 0" by (simp add: f64_def fround_def)
  from assms have "\<not> is_nan lo" by (simp add: flt_def)
  moreover have "\<not> is_inf lo"
  proof
    assume i: "is_inf lo"
    from assms have "0 < valof lo" by (simp add: flt_def z)
    then have "\<not> f_sign lo" by (rule valof_pos_sign)
    with i have "valof lo = 2 ^ 1024" by (simp add: valof_inf)
    moreover from assms have "valof lo < valof hi" "\<not> is_nan hi" by (simp_all add: flt_def)
    ultimately show False using valof_le_inf [of hi] by simp
  qed
  ultimately have "fsub lo lo = 0" by (rule fsub_self)
  moreover have "fmul (f64 25) 0 = 0" by (rule fmul_zero_right) (rule f64_consts)+
  moreover from fsub_pos [OF assms] have "fdiv 0 (fsub hi lo) = 0" by (simp add: fdiv_zero_left)
  ultimately show ?thesis by simp
qed

lemma f_mag_fround: "f_mag (fround x) = round_mag \<bar>x\<bar>"
  unfolding fround_def by (rule f_mag_mk_float) (rule round_mag_less)

lemma f_sign_fround: "f_sign (fround x) = (x < 0)"
  unfolding fround_def by (rule f_sign_mk_float) (rule round_mag_less)

lemma is_nan_fround: "\<not> is_nan (fround x)"
  unfolding fround_def by (rule is_nan_mk_float) (rule round_mag_le_inf)

lemma bitlen_pos: "0 < n \<Longrightarrow> 0 < bitlen n"
  by (simp add: bitlen.simps)

lemma ilog2_nonneg: "1 \<le> a \<Longrightarrow> 0 \<le> ilog2 a"
proof -
  assume a: "1 \<le> a"
  then have "1 \<le> \<lfloor>a\<rfloor>" by simp
  then have "0 < nat \<lfloor>a\<rfloor>" by simp
  then have "0 < bitlen (nat \<lfloor>a\<rfloor>)" by (rule bitlen_pos)
  with a show ?thesis by (simp add: ilog2_def)
qed

lemma round_mag_ge_1: 
  assumes "1 \<le> a"
  shows "1022 * 2 ^ 52 \<le> round_mag a"
proof -
  have a: "0 < a" using assms by simp
  have "1023 \<le> f_exp a" using ilog2_nonneg [OF assms] by (simp add: f_exp_def)
  then have "1022 \<le> f_exp a - 1" by simp
  then have "1022 * 2 ^ 52 \<le> (f_exp a - 1) * 2 ^ 52" by (rule mult_right_mono) simp
  moreover have "0 \<le> rne (a / pow2 (f_exp a - 1075))"
    using a rne_ge [of 0 "a / pow2 (f_exp a - 1075)"] by (simp add: less_imp_le)
  ultimately have "1022 * 2 ^ 52 \<le> (f_exp a - 1) * 2 ^ 52 + rne (a / pow2 (f_exp a - 1075))"
    by simp
  then have "1022 * 2 ^ 52 \<le> nat ((f_exp a - 1) * 2 ^ 52 + rne (a / pow2 (f_exp a - 1075)))"
    by simp
  moreover have "1022 * 2 ^ 52 \<le> inf_mag" by (simp add: inf_mag_def)
  ultimately show ?thesis using a by (simp add: round_mag_def)
qed

lemma valof_nonneg: "\<not> f_sign w \<Longrightarrow> valof w = mag_val (f_mag w)"
  by (simp add: valof_def)

lemma valof_fround_ge_half:
  assumes "1 \<le> x"
  shows "1 / 2 \<le> valof (fround x)"
proof -
  have ax: "\<bar>x\<bar> = x" using assms by simp
  have "mag_val (1022 * 2 ^ 52) \<le> mag_val (round_mag x)"
    using round_mag_ge_1 [OF assms] by (rule mag_val_mono)
  moreover have "mag_val (1022 * 2 ^ 52) = 1 / 2" by (simp add: mag_val_def pow2_def)
  moreover have "valof (fround x) = mag_val (round_mag x)"
    using assms by (simp add: valof_def f_sign_fround f_mag_fround ax)
  ultimately show ?thesis by simp
qed

lemma is_zero_valof: "is_zero w \<longleftrightarrow> valof w = 0"
  by (auto simp: is_zero_def valof_def mag_val_eq_0_iff)

text \<open>A quotient of a non-negative number by a positive finite one.\<close>

lemma fdiv_nonneg:
  assumes "\<not> is_nan a" "\<not> f_sign a" "\<not> is_nan b" "\<not> is_inf b" "\<not> is_zero b" "\<not> f_sign b"
  shows "\<not> is_nan (fdiv a b) \<and> \<not> f_sign (fdiv a b)"
proof (cases "is_inf a")
  case True
  have "inf_mag < 2 ^ 63" by (simp add: inf_mag_def)
  with True assms show ?thesis
    by (simp add: fdiv_def f64_inf_def is_nan_mk_float f_sign_mk_float)
next
  case False
  with assms have "fdiv a b = mk_float False (round_mag \<bar>valof a / valof b\<bar>)"
    by (simp add: fdiv_def)
  then show ?thesis
    using round_mag_less [of "\<bar>valof a / valof b\<bar>"] round_mag_le_inf [of "\<bar>valof a / valof b\<bar>"]
    by (simp add: is_nan_mk_float f_sign_mk_float)
qed

lemma fdiv_pos:
  assumes "\<not> is_nan a" "\<not> f_sign a" "\<not> is_nan b" "\<not> is_inf b" "\<not> is_zero b" "\<not> f_sign b"
    and "pow2 (- 1074) \<le> valof a / valof b"
  shows "\<not> is_zero (fdiv a b)"
proof (cases "is_inf a")
  case True
  have "inf_mag < 2 ^ 63" by (simp add: inf_mag_def)
  with True assms show ?thesis
    by (simp add: fdiv_def f64_inf_def is_zero_def f_mag_mk_float inf_mag_def)
next
  case False
  have q: "0 < valof a / valof b" using assms(7) pow2_pos [of "- 1074"] by linarith
  then have aq: "\<bar>valof a / valof b\<bar> = valof a / valof b" by (rule abs_of_pos)
  from False assms have "fdiv a b = mk_float False (round_mag \<bar>valof a / valof b\<bar>)"
    by (simp add: fdiv_def)
  then have "fdiv a b = mk_float False (round_mag (valof a / valof b))"
    by (simp only: aq)
  moreover have "1 \<le> round_mag (valof a / valof b)" using assms(7) by (rule round_mag_pos)
  ultimately show ?thesis
    using round_mag_less [of "valof a / valof b"] by (simp add: is_zero_def f_mag_mk_float)
qed

text \<open>A sum of two non-negative numbers, one of them not zero.\<close>

lemma fadd_pos:
  assumes "\<not> is_nan a" "\<not> f_sign a" "\<not> is_nan b" "\<not> f_sign b"
    and "\<not> is_zero a \<or> \<not> is_zero b"
  shows "\<not> is_nan (fadd a b) \<and> \<not> is_zero (fadd a b) \<and> \<not> f_sign (fadd a b)"
proof -
  have nz: "\<not> is_zero w" if "is_inf w" for w
    using that by (simp add: is_zero_def is_inf_def inf_mag_def)
  show ?thesis
  proof (cases "is_inf a \<or> is_inf b")
    case True
    then have "fadd a b = a \<and> is_inf a \<or> fadd a b = b \<and> is_inf b"
      using assms by (auto simp: fadd_def)
    with assms nz show ?thesis by auto
  next
    case False
    have va: "valof a = mag_val (f_mag a)" and vb: "valof b = mag_val (f_mag b)"
      using assms by (simp_all add: valof_def)
    have "pow2 (- 1074) \<le> valof a + valof b"
    proof (cases "is_zero a")
      case True
      with assms(5) have "1 \<le> f_mag b" by (simp add: is_zero_def)
      then have "mag_val 1 \<le> mag_val (f_mag b)" by (rule mag_val_mono)
      then have "pow2 (- 1074) \<le> mag_val (f_mag b)" by (simp only: mag_val_1)
      with mag_val_nonneg [of "f_mag a"] show ?thesis unfolding va vb by linarith
    next
      case False
      then have "1 \<le> f_mag a" by (simp add: is_zero_def)
      then have "mag_val 1 \<le> mag_val (f_mag a)" by (rule mag_val_mono)
      then have "pow2 (- 1074) \<le> mag_val (f_mag a)" by (simp only: mag_val_1)
      with mag_val_nonneg [of "f_mag b"] show ?thesis unfolding va vb by linarith
    qed
    moreover from this have "valof a + valof b \<noteq> 0" using pow2_pos [of "- 1074"] by linarith
    ultimately show ?thesis using False assms fround_pos [of "valof a + valof b"]
      by (simp add: fadd_def)
  qed
qed

lemma f64_of_int_nonneg: "0 \<le> i \<Longrightarrow> \<not> is_nan (f64_of_int i) \<and> \<not> f_sign (f64_of_int i)"
  by (simp add: f64_of_int_def is_nan_fround f_sign_fround)

lemma f64_of_int_pos: "1 \<le> i \<Longrightarrow> 1 / 2 \<le> valof (f64_of_int i)"
  unfolding f64_of_int_def by (rule valof_fround_ge_half) simp

lemma f64_1e9:
  "\<not> is_nan (f64 1000000000)" "\<not> is_inf (f64 1000000000)" "\<not> is_zero (f64 1000000000)"
  "\<not> f_sign (f64 1000000000)" "valof (f64 1000000000) = 1000000000"
  by (simp_all add: f64_defs)

lemma sint_word64_of_int: "- (2 ^ 63) \<le> k \<Longrightarrow> k < 2 ^ 63 \<Longrightarrow> sint (word_of_int k :: 64 word) = k"
  by (simp add: sint_sbintrunc' signed_take_bit_int_eq_self)

lemma sint_div64_Second: 
  assumes "0 <s d"
  shows "sint (div64 d Second) = sint d div 1000000000"
    and "sint (mod64 d Second) = sint d mod 1000000000"
proof -
  from assms have p: "0 < sint d" by (simp add: word_sless_alt)
  have u: "sint d < 2 ^ 63" using sint_lt [of d] by simp
  have s: "sint Second = 1000000000" by (simp add: Second_def)
  have q: "sint d sdiv 1000000000 = sint d div 1000000000"
    using p by (simp add: signed_divide_int_def)
  have r: "sint d smod 1000000000 = sint d mod 1000000000"
    using p by (simp add: signed_modulo_int_def)
  have "sint d div 1000000000 \<le> sint d div 1"
    using p by (intro zdiv_mono2) simp_all
  then have "0 \<le> sint d div 1000000000" "sint d div 1000000000 < 2 ^ 63"
    using p u by (simp_all add: pos_imp_zdiv_nonneg_iff)
  then show "sint (div64 d Second) = sint d div 1000000000"
    by (simp add: div64_def s q sint_word64_of_int)
  have "0 \<le> sint d mod 1000000000" "sint d mod 1000000000 < 1000000000" by simp_all
  then show "sint (mod64 d Second) = sint d mod 1000000000"
    by (simp add: mod64_def s r sint_word64_of_int)
qed

lemma Seconds_pos:
  assumes "0 <s d"
  shows "\<not> is_nan (Seconds d) \<and> \<not> is_zero (Seconds d) \<and> \<not> f_sign (Seconds d)"
proof -
  let ?s = "sint d div 1000000000" and ?n = "sint d mod 1000000000"
  from assms have p: "0 < sint d" by (simp add: word_sless_alt)
  have S: "Seconds d = fadd (f64_of_int ?s) (fdiv (f64_of_int ?n) (f64 1000000000))"
    by (simp add: Seconds_def sint_div64_Second [OF assms])
  have s0: "0 \<le> ?s" using p by (simp add: pos_imp_zdiv_nonneg_iff)
  have n0: "0 \<le> ?n" by simp
  note a = f64_of_int_nonneg [OF s0]
  note b = f64_of_int_nonneg [OF n0]
  have q: "\<not> is_nan (fdiv (f64_of_int ?n) (f64 1000000000))
      \<and> \<not> f_sign (fdiv (f64_of_int ?n) (f64 1000000000))"
    using b f64_1e9 by (intro fdiv_nonneg) simp_all
  have "\<not> is_zero (f64_of_int ?s) \<or> \<not> is_zero (fdiv (f64_of_int ?n) (f64 1000000000))"
  proof (cases "1 \<le> ?s")
    case True
    then have "1 / 2 \<le> valof (f64_of_int ?s)" by (rule f64_of_int_pos)
    then show ?thesis by (simp add: is_zero_valof)
  next
    case False
    with s0 have "?s = 0" by simp
    with p have "1 \<le> ?n" by (metis add.left_neutral div_mult_mod_eq mult_zero_left zless_imp_add1_zle)
    then have "1 / 2 \<le> valof (f64_of_int ?n)" by (rule f64_of_int_pos)
    then have "(1 / 2) / 1000000000 \<le> valof (f64_of_int ?n) / valof (f64 1000000000)"
      by (simp add: f64_1e9 divide_right_mono)
    moreover have "pow2 (- 1074) \<le> (1 / 2) / 1000000000" by (simp add: pow2_def)
    ultimately have "pow2 (- 1074) \<le> valof (f64_of_int ?n) / valof (f64 1000000000)"
      by (rule order_trans [rotated])
    with b f64_1e9 have "\<not> is_zero (fdiv (f64_of_int ?n) (f64 1000000000))"
      by (intro fdiv_pos) simp_all
    then show ?thesis by simp
  qed
  with a q show ?thesis unfolding S by (intro fadd_pos) simp_all
qed

subsection \<open>Rounding: exponent, value and error\<close>

lemma real_pow2_le: "2 ^ k \<le> (n::nat) \<Longrightarrow> (2::real) ^ k \<le> real n"
  by (metis of_nat_le_iff of_nat_numeral of_nat_power)

lemma real_le_pow2: "(n::nat) \<le> 2 ^ k \<Longrightarrow> real n \<le> 2 ^ k"
  by (metis of_nat_le_iff of_nat_numeral of_nat_power)


lemma pow2_neq_0 [simp]: "pow2 k \<noteq> 0"
  by (simp add: pow2_powr)

lemma pow2_neg_nat: "pow2 (- int k) = 1 / 2 ^ k"
  by (simp add: pow2_powr powr_minus_divide powr_realpow)

lemma bitlen_bounds: "0 < n \<Longrightarrow> 2 ^ (bitlen n - 1) \<le> n \<and> n < 2 ^ bitlen n"
proof (induction n rule: bitlen.induct)
  case (1 n)
  show ?case
  proof (cases "n div 2 = 0")
    case True
    with "1.prems" have "n = 1" by (simp add: div_eq_0_iff) 
    then show ?thesis by (simp add: bitlen.simps)
  next
    case False
    then have h: "0 < n div 2" by simp
    with "1.IH" "1.prems" have ih: "2 ^ (bitlen (n div 2) - 1) \<le> n div 2" "n div 2 < 2 ^ bitlen (n div 2)"
      by simp_all
    have b: "bitlen n = Suc (bitlen (n div 2))" using "1.prems" by (simp add: bitlen.simps)
    have p: "0 < bitlen (n div 2)" using h by (simp add: bitlen.simps)
    then have e: "bitlen (n div 2) = Suc (bitlen (n div 2) - 1)" by simp
    have "2 ^ (bitlen n - 1) = 2 * 2 ^ (bitlen (n div 2) - 1)"
      unfolding b using e by (metis diff_Suc_1 power_Suc)
    also have "\<dots> \<le> 2 * (n div 2)" using ih(1) by simp
    also have "\<dots> \<le> n" by simp
    finally have lo: "2 ^ (bitlen n - 1) \<le> n" .
    have "n < 2 * (n div 2) + 2" by linarith
    also have "\<dots> \<le> 2 * 2 ^ bitlen (n div 2)" using ih(2) by simp
    finally have "n < 2 ^ bitlen n" by (simp add: b)
    with lo show ?thesis by simp
  qed
qed

lemma ilog2_spec:
  assumes "0 < a"
  shows "pow2 (ilog2 a) \<le> a \<and> a < pow2 (ilog2 a + 1)"
proof (cases "1 \<le> a")
  case True
  define n where "n = nat \<lfloor>a\<rfloor>"
  have n: "0 < n" using True by (simp add: n_def)
  have fl: "real n \<le> a" "a < real n + 1"
    using True by (simp_all add: n_def)
  from bitlen_bounds [OF n] have b: "2 ^ (bitlen n - 1) \<le> n" "n < 2 ^ bitlen n" by simp_all
  have bp: "0 < bitlen n" using n by (simp add: bitlen.simps)
  have il: "ilog2 a = int (bitlen n - 1)" using True bp by (simp add: ilog2_def n_def)
  have il1: "ilog2 a + 1 = int (bitlen n)" using il bp by simp
  have "2 ^ (bitlen n - 1) \<le> real n" using b(1) by (rule real_pow2_le)
  then have "2 ^ (bitlen n - 1) \<le> a" using fl(1) by linarith
  then have lo: "pow2 (ilog2 a) \<le> a" by (simp only: il pow2_nat)
  have "n + 1 \<le> 2 ^ bitlen n" using b(2) by simp
  then have "real (n + 1) \<le> 2 ^ bitlen n" by (rule real_le_pow2)
  then have "a < 2 ^ bitlen n" using fl(2) by simp
  then have "a < pow2 (ilog2 a + 1)" by (simp only: il1 pow2_nat)
  with lo show ?thesis by simp
next
  case False
  with assms have a1: "a < 1" by simp
  define c where "c = \<lceil>1 / a\<rceil>"
  define m where "m = nat (c - 1)"
  have inv: "1 < 1 / a" using assms a1 by simp
  then have c2: "2 \<le> c" unfolding c_def by linarith
  then have m: "0 < m" and mc: "int m = c - 1" by (simp_all add: m_def)
  have cl: "real_of_int c - 1 < 1 / a" "1 / a \<le> real_of_int c" unfolding c_def by linarith+
  then have ml: "real m < 1 / a" "1 / a \<le> real m + 1"
    using mc by (metis of_int_of_nat_eq of_int_diff of_int_1, metis of_int_of_nat_eq of_int_diff of_int_1 diff_add_cancel)
  from bitlen_bounds [OF m] have b: "2 ^ (bitlen m - 1) \<le> m" "m < 2 ^ bitlen m" by simp_all
  have bp: "0 < bitlen m" using m by (simp add: bitlen.simps)
  have il: "ilog2 a = - int (bitlen m)" using False by (simp add: ilog2_def m_def c_def)
  have "m + 1 \<le> 2 ^ bitlen m" using b(2) by simp
  then have "real (m + 1) \<le> 2 ^ bitlen m" by (rule real_le_pow2)
  then have "1 / a \<le> 2 ^ bitlen m" using ml(2) by simp
  then have "1 \<le> 2 ^ bitlen m * a" using assms by (simp add: pos_divide_le_eq)
  then have "1 / 2 ^ bitlen m \<le> a" by (simp add: pos_divide_le_eq mult.commute)
  moreover have "pow2 (- int (bitlen m)) = 1 / 2 ^ bitlen m"
    by (rule pow2_neg_nat)
  ultimately have lo: "pow2 (ilog2 a) \<le> a" by (simp add: il)
  have "2 ^ (bitlen m - 1) \<le> real m" using b(1) by (rule real_pow2_le)
  then have "2 ^ (bitlen m - 1) < 1 / a" using ml(1) by linarith
  then have "2 ^ (bitlen m - 1) * a < 1" using assms by (simp add: pos_less_divide_eq)
  then have "a < 1 / 2 ^ (bitlen m - 1)" by (simp add: pos_less_divide_eq mult.commute)
  moreover have "pow2 (- int (bitlen m) + 1) = 1 / 2 ^ (bitlen m - 1)"
  proof -
    have "- int (bitlen m) + 1 = - int (bitlen m - 1)" using bp by simp
    then have "pow2 (- int (bitlen m) + 1) = pow2 (- int (bitlen m - 1))" by (rule arg_cong)
    also have "\<dots> = 1 / 2 ^ (bitlen m - 1)" by (rule pow2_neg_nat)
    finally show ?thesis .
  qed
  ultimately have "a < pow2 (ilog2 a + 1)" by (simp add: il)
  with lo show ?thesis by simp
qed

lemma ilog2_unique:
  assumes "0 < a" and "pow2 e \<le> a" and "a < pow2 (e + 1)"
  shows "ilog2 a = e"
proof -
  from ilog2_spec [OF assms(1)] have s: "pow2 (ilog2 a) \<le> a" "a < pow2 (ilog2 a + 1)" by simp_all
  from s(1) assms(3) have "pow2 (ilog2 a) < pow2 (e + 1)" by simp
  then have "ilog2 a < e + 1" by (simp add: pow2_less_iff)
  moreover from assms(2) s(2) have "pow2 e < pow2 (ilog2 a + 1)" by simp
  then have "e < ilog2 a + 1" by (simp add: pow2_less_iff)
  ultimately show ?thesis by simp
qed

lemma ilog2_less: "0 < a \<Longrightarrow> a < pow2 k \<Longrightarrow> ilog2 a < k"
proof -
  assume a: "0 < a" and "a < pow2 k"
  with ilog2_spec [OF a] have "pow2 (ilog2 a) < pow2 k" by simp
  then show ?thesis by (simp add: pow2_less_iff)
qed

lemma ilog2_ge: "0 < a \<Longrightarrow> pow2 k \<le> a \<Longrightarrow> k \<le> ilog2 a"
proof -
  assume a: "0 < a" and "pow2 k \<le> a"
  with ilog2_spec [OF a] have "pow2 k < pow2 (ilog2 a + 1)" by simp
  then show ?thesis by (simp add: pow2_less_iff)
qed

lemma ilog2_mono: "0 < a \<Longrightarrow> a \<le> b \<Longrightarrow> ilog2 a \<le> ilog2 b"
proof -
  assume a: "0 < a" and ab: "a \<le> b"
  then have b: "0 < b" by simp
  from ilog2_spec [OF a] ab have "pow2 (ilog2 a) \<le> b" by simp
  with b show ?thesis by (rule ilog2_ge)
qed

lemma mag_val_split:
  fixes E f :: nat
  assumes "1 \<le> E" and "f < 2 ^ 52"
  shows "mag_val (E * 2 ^ 52 + f) = real (2 ^ 52 + f) * pow2 (int E - 1075)"
proof -
  have d: "(E * 2 ^ 52 + f) div 2 ^ 52 = E" using assms(2) by simp
  have m: "(E * 2 ^ 52 + f) mod 2 ^ 52 = f" using assms(2) by simp
  have "1 * 2 ^ 52 \<le> E * (2 ^ 52 :: nat)" using assms(1) by (rule mult_le_mono1)
  then have "2 ^ 52 \<le> E * 2 ^ 52 + f" by simp
  then show ?thesis by (simp only: mag_val_norm d m)
qed

lemma mag_val_compose:
  fixes E n :: nat
  assumes E: "1 \<le> E" and n: "n \<le> 2 ^ 53" and norm: "2 \<le> E \<Longrightarrow> 2 ^ 52 \<le> n"
  shows "mag_val ((E - 1) * 2 ^ 52 + n) = real n * pow2 (int E - 1075)"
proof -
  consider (sub) "n < 2 ^ 52" | (mid) "2 ^ 52 \<le> n" "n < 2 ^ 53" | (top) "n = 2 ^ 53"
    using n by fastforce
  then show ?thesis
  proof cases
    case sub
    with norm E have "E = 1" by (cases "2 \<le> E") simp_all
    with sub show ?thesis by (simp add: mag_val_sub)
  next
    case mid
    define f where "f = n - 2 ^ 52"
    have f: "f < 2 ^ 52" and nf: "n = 2 ^ 52 + f" using mid by (simp_all add: f_def)
    have "(E - 1) * 2 ^ 52 + n = E * 2 ^ 52 + f"
    proof -
      have "E = Suc (E - 1)" using E by simp
      then have "E * 2 ^ 52 = (E - 1) * 2 ^ 52 + (2 ^ 52 :: nat)" by (metis mult_Suc add.commute)
      then show ?thesis by (simp add: nf)
    qed
    then have "mag_val ((E - 1) * 2 ^ 52 + n) = mag_val (E * 2 ^ 52 + f)" by (rule arg_cong)
    also have "\<dots> = real (2 ^ 52 + f) * pow2 (int E - 1075)" using E f by (rule mag_val_split)
    finally show ?thesis by (simp only: nf)
  next
    case top
    have "(E - 1) * 2 ^ 52 + n = (E + 1) * 2 ^ 52 + 0"
    proof -
      have "E = Suc (E - 1)" using E by simp
      then have "E * 2 ^ 52 = (E - 1) * 2 ^ 52 + (2 ^ 52 :: nat)" by (metis mult_Suc add.commute)
      then show ?thesis by (simp add: top)
    qed
    then have "mag_val ((E - 1) * 2 ^ 52 + n) = mag_val ((E + 1) * 2 ^ 52 + 0)" by (rule arg_cong)
    also have "\<dots> = real (2 ^ 52 + 0) * pow2 (int (E + 1) - 1075)"
      by (rule mag_val_split) simp_all
    also have "\<dots> = 2 ^ 52 * (pow2 1 * pow2 (int E - 1075))"
      by (simp add: pow2_add [symmetric] add.commute)
    also have "\<dots> = real n * pow2 (int E - 1075)" by (simp add: top pow2_def)
    finally show ?thesis .
  qed
qed

text \<open>The scaled operand of the rounding lies in the integer range of a 53-bit mantissa.\<close>

lemma scaled_range:
  assumes "0 < a"
  shows "0 < a / pow2 (f_exp a - 1075)" and "a / pow2 (f_exp a - 1075) < 2 ^ 53"
    and "2 \<le> f_exp a \<Longrightarrow> 2 ^ 52 \<le> a / pow2 (f_exp a - 1075)"
proof -
  from ilog2_spec [OF assms] have s: "pow2 (ilog2 a) \<le> a" "a < pow2 (ilog2 a + 1)" by simp_all
  show "0 < a / pow2 (f_exp a - 1075)" using assms by simp
  have "ilog2 a + 1 \<le> f_exp a - 1022" by (simp add: f_exp_def)
  then have "pow2 (ilog2 a + 1) \<le> pow2 (f_exp a - 1022)" by (rule pow2_mono)
  with s(2) have "a < pow2 (f_exp a - 1022)" by simp
  also have "\<dots> = pow2 53 * pow2 (f_exp a - 1075)" by (simp add: pow2_add [symmetric])
  also have "\<dots> = 2 ^ 53 * pow2 (f_exp a - 1075)" by (simp add: pow2_def)
  finally show "a / pow2 (f_exp a - 1075) < 2 ^ 53" by (simp add: pos_divide_less_eq)
  assume "2 \<le> f_exp a"
  then have e: "f_exp a = ilog2 a + 1023" by (simp add: f_exp_def max_def split: if_splits)
  have "2 ^ 52 * pow2 (f_exp a - 1075) = pow2 52 * pow2 (f_exp a - 1075)" by (simp add: pow2_def)
  also have "\<dots> = pow2 (ilog2 a)" by (simp add: pow2_add [symmetric] e)
  finally have "2 ^ 52 * pow2 (f_exp a - 1075) \<le> a" using s(1) by simp
  then show "2 ^ 52 \<le> a / pow2 (f_exp a - 1075)" by (simp add: pos_le_divide_eq)
qed

lemma rne_scaled:
  assumes "0 < a"
  shows "0 \<le> rne (a / pow2 (f_exp a - 1075))" and "rne (a / pow2 (f_exp a - 1075)) \<le> 2 ^ 53"
    and "2 \<le> f_exp a \<Longrightarrow> 2 ^ 52 \<le> rne (a / pow2 (f_exp a - 1075))"
proof -
  note r = scaled_range [OF assms]
  show "0 \<le> rne (a / pow2 (f_exp a - 1075))" using r(1) rne_ge [of 0] by simp
  have "a / pow2 (f_exp a - 1075) \<le> real_of_int (2 ^ 53)" using r(2) by simp
  then show "rne (a / pow2 (f_exp a - 1075)) \<le> 2 ^ 53" by (rule rne_le)
  assume "2 \<le> f_exp a"
  then have "real_of_int (2 ^ 52) \<le> a / pow2 (f_exp a - 1075)" using r(3) by simp
  then show "2 ^ 52 \<le> rne (a / pow2 (f_exp a - 1075))" by (rule rne_ge)
qed

text \<open>
  The value of a rounded magnitude: the scaled operand rounded to an integer, scaled
  back. It holds as long as the exponent is in range; a carry up to \<open>2^1024\<close> gives the
  bits of infinity, whose \<open>mag_val\<close> is \<open>2^1024\<close>.
\<close>

lemma round_mag_bits:
  assumes "0 < a" and "f_exp a \<le> 2046"
  shows "round_mag a = nat (f_exp a - 1) * 2 ^ 52 + nat (rne (a / pow2 (f_exp a - 1075)))"
proof -
  note r = rne_scaled [OF assms(1)]
  let ?n = "rne (a / pow2 (f_exp a - 1075))"
  have e1: "1 \<le> f_exp a" by (rule f_exp_ge_1)
  then have e0: "0 \<le> (f_exp a - 1) * 2 ^ 52" by simp
  have "(f_exp a - 1) * 2 ^ 52 \<le> 2045 * 2 ^ 52" using assms(2) by simp
  with r(2) have "(f_exp a - 1) * 2 ^ 52 + ?n \<le> 2047 * 2 ^ 52" by simp
  then have "nat ((f_exp a - 1) * 2 ^ 52 + ?n) \<le> inf_mag" by (simp add: inf_mag_def)
  then have "round_mag a = nat ((f_exp a - 1) * 2 ^ 52 + ?n)"
    using assms(1) by (simp add: round_mag_def)
  also have "\<dots> = nat ((f_exp a - 1) * 2 ^ 52) + nat ?n" using e0 r(1) by (rule nat_add_distrib)
  also have "nat ((f_exp a - 1) * 2 ^ 52) = nat (f_exp a - 1) * 2 ^ 52"
    using e1 by (simp add: nat_mult_distrib)
  finally show ?thesis .
qed

lemma round_mag_val:
  assumes "0 < a" and "f_exp a \<le> 2046"
  shows "mag_val (round_mag a)
    = real_of_int (rne (a / pow2 (f_exp a - 1075))) * pow2 (f_exp a - 1075)"
proof -
  note r = rne_scaled [OF assms(1)]
  let ?n = "rne (a / pow2 (f_exp a - 1075))"
  define E where "E = nat (f_exp a)"
  have e1: "1 \<le> f_exp a" by (rule f_exp_ge_1)
  then have E: "1 \<le> E" "int E = f_exp a" "nat (f_exp a - 1) = E - 1" by (simp_all add: E_def)
  have n: "nat ?n \<le> 2 ^ 53" using r(2) by simp
  have norm: "2 ^ 52 \<le> nat ?n" if "2 \<le> E"
  proof -
    from that have "2 \<le> f_exp a" using E(2) by simp
    then have "2 ^ 52 \<le> ?n" by (rule r(3))
    then show ?thesis by simp
  qed
  have "round_mag a = (E - 1) * 2 ^ 52 + nat ?n"
    using round_mag_bits [OF assms] by (simp only: E(3))
  then have "mag_val (round_mag a) = mag_val ((E - 1) * 2 ^ 52 + nat ?n)" by (rule arg_cong)
  also have "\<dots> = real (nat ?n) * pow2 (int E - 1075)" using E(1) n norm by (rule mag_val_compose)
  also have "real (nat ?n) = real_of_int ?n" using r(1) by simp
  finally show ?thesis by (simp only: E(2))
qed

lemma round_mag_err:
  assumes "0 < a" and "f_exp a \<le> 2046"
  shows "\<bar>mag_val (round_mag a) - a\<bar> \<le> pow2 (f_exp a - 1076)"
proof -
  let ?u = "pow2 (f_exp a - 1075)"
  have u: "0 < ?u" by simp
  have "\<bar>real_of_int (rne (a / ?u)) - a / ?u\<bar> \<le> 1 / 2" by (rule rne_err)
  then have "\<bar>real_of_int (rne (a / ?u)) - a / ?u\<bar> * ?u \<le> 1 / 2 * ?u"
    using u by (simp add: mult_right_mono less_imp_le)
  moreover have "\<bar>real_of_int (rne (a / ?u)) - a / ?u\<bar> * ?u
      = \<bar>real_of_int (rne (a / ?u)) * ?u - a\<bar>"
  proof -
    have "\<bar>real_of_int (rne (a / ?u)) - a / ?u\<bar> * ?u
        = \<bar>(real_of_int (rne (a / ?u)) - a / ?u) * ?u\<bar>"
      using u by (simp add: abs_mult abs_of_pos)
    also have "(real_of_int (rne (a / ?u)) - a / ?u) * ?u = real_of_int (rne (a / ?u)) * ?u - a"
      using u by (simp add: left_diff_distrib)
    finally show ?thesis .
  qed
  moreover have "1 / 2 * ?u = pow2 (f_exp a - 1076)"
  proof -
    have "pow2 (f_exp a - 1076) = pow2 (- 1 + (f_exp a - 1075))" by simp
    also have "\<dots> = pow2 (- 1) * ?u" by (rule pow2_add)
    finally show ?thesis by (simp add: pow2_def)
  qed
  ultimately show ?thesis by (simp only: round_mag_val [OF assms])
qed



lemma valof_mk_float_pos: "b < inf_mag \<Longrightarrow> valof (mk_float False b) = mag_val b"
proof -
  assume b: "b < inf_mag"
  moreover have "inf_mag < 2 ^ 63" by (simp add: inf_mag_def)
  ultimately have "b < 2 ^ 63" by (rule less_trans)
  then show ?thesis by (simp add: valof_def f_mag_mk_float f_sign_mk_float)
qed

lemma f_exp_le: "0 < a \<Longrightarrow> a < pow2 k \<Longrightarrow> f_exp a \<le> max 1 (k + 1022)"
  using ilog2_less [of a k] by (simp add: f_exp_def)






subsection \<open>Signs\<close>



lemma f64_inf_props: "\<not> is_nan (f64_inf s)" "is_inf (f64_inf s)" "f_sign (f64_inf s) = s"
proof -
  have b: "inf_mag < 2 ^ 63" by (simp add: inf_mag_def)
  show "\<not> is_nan (f64_inf s)" unfolding f64_inf_def by (rule is_nan_mk_float) simp
  show "is_inf (f64_inf s)" using b by (simp add: f64_inf_def is_inf_def f_mag_mk_float)
  show "f_sign (f64_inf s) = s" unfolding f64_inf_def using b by (rule f_sign_mk_float)
qed

lemma mk_float_round_props:
  "\<not> is_nan (mk_float s (round_mag a))" "f_sign (mk_float s (round_mag a)) = s"
proof -
  show "\<not> is_nan (mk_float s (round_mag a))" by (rule is_nan_mk_float) (rule round_mag_le_inf)
  show "f_sign (mk_float s (round_mag a)) = s" by (rule f_sign_mk_float) (rule round_mag_less)
qed

lemma inf_not_zero: "is_inf w \<Longrightarrow> \<not> is_zero w"
  by (simp add: is_inf_def is_zero_def inf_mag_def)

text \<open>The sign bit of a product and of a quotient is the exclusive or of the operands' signs.\<close>

lemma fmul_sign:
  assumes "\<not> is_nan a" "\<not> is_inf a" "\<not> is_zero a" "\<not> is_nan b"
  shows "\<not> is_nan (fmul a b) \<and> f_sign (fmul a b) = (f_sign a \<noteq> f_sign b)"
  using assms inf_not_zero [of b] by (auto simp: fmul_def f64_inf_props mk_float_round_props)

lemma fdiv_sign:
  assumes "\<not> is_nan a" "\<not> is_nan b" "\<not> is_inf b" "\<not> is_zero b"
  shows "\<not> is_nan (fdiv a b) \<and> f_sign (fdiv a b) = (f_sign a \<noteq> f_sign b)"
  using assms by (simp add: fdiv_def f64_inf_props mk_float_round_props)

lemma f64_25_nonzero: "\<not> is_zero (f64 25)"
  by (simp add: f64_defs)

lemma positive_below_finite:
  assumes "flt (f64 0) lo" and "flt lo hi"
  shows "\<not> is_nan lo" "\<not> is_inf lo" "\<not> is_zero lo" "\<not> f_sign lo"
proof -
  have z: "f64 0 = 0" by (simp add: f64_def fround_def)
  from assms show n: "\<not> is_nan lo" by (simp add: flt_def)
  from assms have p: "0 < valof lo" by (simp add: flt_def z)
  then show s: "\<not> f_sign lo" by (rule valof_pos_sign)
  from p show "\<not> is_zero lo" by (simp add: is_zero_valof)
  show "\<not> is_inf lo"
  proof
    assume "is_inf lo"
    with s have "valof lo = 2 ^ 1024" by (simp add: valof_inf)
    moreover from assms have "valof lo < valof hi" "\<not> is_nan hi" by (simp_all add: flt_def)
    ultimately show False using valof_le_inf [of hi] by simp
  qed
qed

subsection \<open>Rounding is exact on the format and monotone\<close>

lemma abs_valof: "\<bar>valof w\<bar> = mag_val (f_mag w)"
  using mag_val_nonneg [of "f_mag w"] by (simp add: valof_def)

lemma abs_valof_le: "\<not> is_nan w \<Longrightarrow> \<bar>valof w\<bar> \<le> 2 ^ 1024"
proof -
  assume "\<not> is_nan w"
  then have "f_mag w \<le> inf_mag" by (simp add: is_nan_def)
  then have "mag_val (f_mag w) \<le> mag_val inf_mag" by (rule mag_val_mono)
  then show ?thesis by (simp only: abs_valof mag_val_inf)
qed

lemma valof_fround:
  "valof (fround x) = (if x < 0 then - mag_val (round_mag (- x)) else mag_val (round_mag x))"
proof (cases "x < 0")
  case True
  then have "\<bar>x\<bar> = - x" by simp
  with True show ?thesis by (simp add: valof_def f_sign_fround f_mag_fround)
next
  case False
  then have "\<bar>x\<bar> = x" by simp
  with False show ?thesis by (simp add: valof_def f_sign_fround f_mag_fround)
qed

lemma valof_mk_float: "b < 2 ^ 63 \<Longrightarrow> valof (mk_float s b) = (if s then - mag_val b else mag_val b)"
  by (simp add: valof_def f_mag_mk_float f_sign_mk_float)

text \<open>Rounding is monotone, on the bits and on the values.\<close>

lemma round_mag_mono:
  assumes "0 \<le> x" and "x \<le> y"
  shows "round_mag x \<le> round_mag y"
proof (cases "x = 0")
  case True
  then show ?thesis by simp
next
  case False
  with assms have x: "0 < x" and y: "0 < y" by simp_all
  let ?B = "\<lambda>a. (f_exp a - 1) * 2 ^ 52 + rne (a / pow2 (f_exp a - 1075))"
  have e: "f_exp x \<le> f_exp y" using ilog2_mono [OF x assms(2)] by (simp add: f_exp_def)
  have "?B x \<le> ?B y"
  proof (cases "f_exp x = f_exp y")
    case True
    have "x / pow2 (f_exp y - 1075) \<le> y / pow2 (f_exp y - 1075)"
      using assms(2) by (simp add: divide_right_mono less_imp_le)
    then have "rne (x / pow2 (f_exp y - 1075)) \<le> rne (y / pow2 (f_exp y - 1075))"
      by (rule rne_mono)
    with True show ?thesis by simp
  next
    case False
    with e have lt: "f_exp x + 1 \<le> f_exp y" by simp
    with f_exp_ge_1 [of x] have "2 \<le> f_exp y" by simp
    then have n: "2 ^ 52 \<le> rne (y / pow2 (f_exp y - 1075))" by (rule rne_scaled(3) [OF y])
    have "?B x \<le> (f_exp x - 1) * 2 ^ 52 + 2 ^ 53" using rne_scaled(2) [OF x] by simp
    also have "\<dots> = (f_exp x + 1) * 2 ^ 52" by simp
    also have "\<dots> \<le> f_exp y * 2 ^ 52" using lt by (intro mult_right_mono) simp_all
    also have "\<dots> = (f_exp y - 1) * 2 ^ 52 + 2 ^ 52" by (simp add: algebra_simps)
    also have "\<dots> \<le> ?B y" using n by simp
    finally show ?thesis .
  qed
  then have "min (nat (?B x)) inf_mag \<le> min (nat (?B y)) inf_mag" by (simp add: min.coboundedI1 nat_mono)
  with x y show ?thesis by (simp add: round_mag_def)
qed

lemma rv_mono:
  assumes "x \<le> y"
  shows "valof (fround x) \<le> valof (fround y)"
proof -
  consider (nn) "x < 0" "y < 0" | (np) "x < 0" "0 \<le> y" | (pp) "0 \<le> x"
    by linarith
  then show ?thesis
  proof cases
    case nn
    with assms have "round_mag (- y) \<le> round_mag (- x)" by (intro round_mag_mono) simp_all
    then have "mag_val (round_mag (- y)) \<le> mag_val (round_mag (- x))" by (rule mag_val_mono)
    with nn show ?thesis by (simp add: valof_fround)
  next
    case np
    have "- mag_val (round_mag (- x)) \<le> 0" "0 \<le> mag_val (round_mag y)"
      by (simp_all add: mag_val_nonneg)
    with np show ?thesis by (simp add: valof_fround)
  next
    case pp
    with assms have "round_mag x \<le> round_mag y" by (intro round_mag_mono) simp_all
    then have "mag_val (round_mag x) \<le> mag_val (round_mag y)" by (rule mag_val_mono)
    with pp assms show ?thesis by (simp add: valof_fround)
  qed
qed

lemma rv_0 [simp]: "valof (fround 0) = 0"
  by (simp add: valof_fround)

lemma rv_nonneg: "0 \<le> x \<Longrightarrow> 0 \<le> valof (fround x)"
  using rv_mono [of 0 x] by simp

lemma rv_nonpos: "x \<le> 0 \<Longrightarrow> valof (fround x) \<le> 0"
  using rv_mono [of x 0] by simp

lemma round_mag_overflow:
  assumes "pow2 1024 \<le> a"
  shows "round_mag a = inf_mag"
proof -
  have a: "0 < a" using assms pow2_pos [of 1024] by linarith
  from a assms have "1024 \<le> ilog2 a" by (rule ilog2_ge)
  then have e: "2047 \<le> f_exp a" by (simp add: f_exp_def)
  then have "2 \<le> f_exp a" by simp
  then have n: "2 ^ 52 \<le> rne (a / pow2 (f_exp a - 1075))" by (rule rne_scaled(3) [OF a])
  have "2046 * 2 ^ 52 \<le> (f_exp a - 1) * 2 ^ 52" using e by (intro mult_right_mono) simp_all
  with n have "2047 * 2 ^ 52 \<le> (f_exp a - 1) * 2 ^ 52 + rne (a / pow2 (f_exp a - 1075))"
    by simp
  then have "inf_mag \<le> nat ((f_exp a - 1) * 2 ^ 52 + rne (a / pow2 (f_exp a - 1075)))"
    by (simp add: inf_mag_def)
  with a show ?thesis by (simp add: round_mag_def)
qed

lemma rv_abs_le: "\<bar>valof (fround x)\<bar> \<le> 2 ^ 1024"
  by (rule abs_valof_le) (rule is_nan_fround)


lemma int_div_mod: "int b = int (b div k) * int k + int (b mod k)"
  by (simp add: zdiv_int zmod_int)

lemma int_div_le: "int (b div k) * int k \<le> int b"
  using int_div_mod [of b k] by linarith

text \<open>A value of the format rounds to itself.\<close>

lemma f_exp_mag_val:
  assumes "1 \<le> b" and "b < inf_mag"
  shows "f_exp (mag_val b) = max 1 (int (b div 2 ^ 52))"
proof (cases "b < 2 ^ 52")
  case True
  then have d: "b div 2 ^ 52 = 0" by simp
  from assms(1) have p: "0 < mag_val b" using mag_val_strict_mono [of 0 b] by simp
  from True have "mag_val b < pow2 (- 1022)" by (rule mag_val_upper_sub)
  with p have "ilog2 (mag_val b) < - 1022" by (rule ilog2_less)
  with d show ?thesis by (simp add: f_exp_def)
next
  case False
  then have n: "2 ^ 52 \<le> b" by simp
  then have E: "1 \<le> b div 2 ^ 52" by (simp add: Suc_le_eq div_greater_zero_iff)
  have lo: "pow2 (int (b div 2 ^ 52) - 1023) \<le> mag_val b" using n by (rule mag_val_lower_norm)
  have up: "mag_val b < pow2 (int (b div 2 ^ 52) - 1023 + 1)"
    using mag_val_upper_norm [OF n] by (simp add: algebra_simps)
  have p: "0 < mag_val b" using lo pow2_pos [of "int (b div 2 ^ 52) - 1023"] by linarith
  have "ilog2 (mag_val b) = int (b div 2 ^ 52) - 1023" using p lo up by (rule ilog2_unique)
  with E show ?thesis by (simp add: f_exp_def)
qed

lemma mag_val_scaled:
  assumes "1 \<le> b" and "b < inf_mag"
  shows "mag_val b / pow2 (max 1 (int (b div 2 ^ 52)) - 1075)
    = real_of_int (int b - (max 1 (int (b div 2 ^ 52)) - 1) * 2 ^ 52)"
proof (cases "b < 2 ^ 52")
  case True
  then have d: "b div 2 ^ 52 = 0" by simp
  with True show ?thesis by (simp add: mag_val_sub)
next
  case False
  then have n: "2 ^ 52 \<le> b" by simp
  then have E: "1 \<le> b div 2 ^ 52" by (simp add: Suc_le_eq div_greater_zero_iff)
  have "int b = int (b div 2 ^ 52) * 2 ^ 52 + int (b mod 2 ^ 52)"
    using int_div_mod [of b "2 ^ 52"] by simp
  then have "int b - (int (b div 2 ^ 52) - 1) * 2 ^ 52 = 2 ^ 52 + int (b mod 2 ^ 52)"
    by (simp add: algebra_simps)
  then have "real_of_int (int b - (int (b div 2 ^ 52) - 1) * 2 ^ 52) = real (2 ^ 52 + b mod 2 ^ 52)"
    by simp
  with E n show ?thesis by (simp add: mag_val_norm max_def)
qed

lemma round_mag_mag_val:
  assumes "b \<le> inf_mag"
  shows "round_mag (mag_val b) = b"
proof -
  consider (z) "b = 0" | (i) "b = inf_mag" | (f) "1 \<le> b" "b < inf_mag"
    using assms by linarith
  then show ?thesis
  proof cases
    case z
    then show ?thesis by simp
  next
    case i
    have "pow2 1024 \<le> mag_val inf_mag" by (simp add: mag_val_inf pow2_def)
    with i show ?thesis by (simp add: round_mag_overflow)
  next
    case f
    let ?E = "max 1 (int (b div 2 ^ 52))"
    have p: "0 < mag_val b" using f(1) mag_val_strict_mono [of 0 b] by simp
    have e: "f_exp (mag_val b) = ?E" using f by (rule f_exp_mag_val)
    have "b div 2 ^ 52 \<le> inf_mag div 2 ^ 52" using assms by (rule div_le_mono)
    then have E: "?E \<le> 2047" by (simp add: inf_mag_def)
    have Eb: "(?E - 1) * 2 ^ 52 \<le> int b"
    proof (cases "b < 2 ^ 52")
      case True
      then show ?thesis by simp
    next
      case False
      have "int (b div 2 ^ 52) * 2 ^ 52 \<le> int b"
        using int_div_le [of b "2 ^ 52"] by simp
      then show ?thesis by (simp add: max_def algebra_simps)
    qed
    have "rne (mag_val b / pow2 (f_exp (mag_val b) - 1075)) = int b - (?E - 1) * 2 ^ 52"
      unfolding e mag_val_scaled [OF f] by (rule rne_of_int)
    then have "(f_exp (mag_val b) - 1) * 2 ^ 52 + rne (mag_val b / pow2 (f_exp (mag_val b) - 1075))
        = int b"
      by (simp add: e)
    with p assms show ?thesis by (simp add: round_mag_def)
  qed
qed

lemma rv_valof: "\<not> is_nan w \<Longrightarrow> valof (fround (valof w)) = valof w"
proof -
  assume "\<not> is_nan w"
  then have b: "f_mag w \<le> inf_mag" by (simp add: is_nan_def)
  have m: "0 \<le> mag_val (f_mag w)" by (rule mag_val_nonneg)
  show ?thesis
  proof (cases "valof w < 0")
    case True
    then have "valof w = - mag_val (f_mag w)" using m by (auto simp: valof_def split: if_splits)
    with True b show ?thesis by (simp add: valof_fround round_mag_mag_val)
  next
    case False
    then have "valof w = mag_val (f_mag w)" using m by (auto simp: valof_def split: if_splits)
    with False b show ?thesis by (simp add: valof_fround round_mag_mag_val)
  qed
qed


text \<open>The value of a sum, a product and a quotient of finite operands.\<close>

lemma sign_valof: "valof w \<noteq> 0 \<Longrightarrow> f_sign w \<longleftrightarrow> valof w < 0"
  using mag_val_nonneg [of "f_mag w"] by (auto simp: valof_def split: if_splits)

lemma valof_signed_round:
  assumes "x \<noteq> 0 \<Longrightarrow> s = (x < 0)"
  shows "valof (mk_float s (round_mag \<bar>x\<bar>)) = valof (fround x)"
proof (cases "x = 0")
  case True
  then show ?thesis by (simp add: valof_mk_float valof_fround)
next
  case False
  with assms show ?thesis by (simp add: fround_def)
qed

lemma finite_not_special:
  assumes "f_mag w < inf_mag"
  shows "\<not> is_nan w" "\<not> is_inf w"
  using assms by (simp_all add: is_nan_def is_inf_def)

lemma valof_fadd:
  assumes "f_mag a < inf_mag" and "f_mag b < inf_mag"
  shows "\<not> is_nan (fadd a b)" and "valof (fadd a b) = valof (fround (valof a + valof b))"
proof -
  note s = finite_not_special [OF assms(1)] finite_not_special [OF assms(2)]
  show "\<not> is_nan (fadd a b)"
    using s by (simp add: fadd_def is_nan_fround is_nan_mk_float)
  show "valof (fadd a b) = valof (fround (valof a + valof b))"
    using s by (simp add: fadd_def valof_mk_float)
qed

lemma valof_fmul:
  assumes "f_mag a < inf_mag" and "f_mag b < inf_mag"
  shows "\<not> is_nan (fmul a b)" and "valof (fmul a b) = valof (fround (valof a * valof b))"
proof -
  note s = finite_not_special [OF assms(1)] finite_not_special [OF assms(2)]
  show "\<not> is_nan (fmul a b)"
    using s by (simp add: fmul_def mk_float_round_props)
  have "valof a * valof b \<noteq> 0 \<Longrightarrow> (f_sign a \<noteq> f_sign b) = (valof a * valof b < 0)"
    using sign_valof [of a] sign_valof [of b] by (auto simp: mult_less_0_iff)
  then have "valof (mk_float (f_sign a \<noteq> f_sign b) (round_mag \<bar>valof a * valof b\<bar>))
      = valof (fround (valof a * valof b))"
    by (rule valof_signed_round)
  with s show "valof (fmul a b) = valof (fround (valof a * valof b))"
    by (simp add: fmul_def)
qed

lemma valof_fdiv:
  assumes "f_mag a < inf_mag" and "f_mag b < inf_mag" and "\<not> is_zero b"
  shows "\<not> is_nan (fdiv a b)" and "valof (fdiv a b) = valof (fround (valof a / valof b))"
proof -
  note s = finite_not_special [OF assms(1)] finite_not_special [OF assms(2)]
  show "\<not> is_nan (fdiv a b)"
    using s assms(3) by (simp add: fdiv_def mk_float_round_props)
  have "valof a / valof b \<noteq> 0 \<Longrightarrow> (f_sign a \<noteq> f_sign b) = (valof a / valof b < 0)"
    using sign_valof [of a] sign_valof [of b] by (auto simp: divide_less_0_iff)
  then have "valof (mk_float (f_sign a \<noteq> f_sign b) (round_mag \<bar>valof a / valof b\<bar>))
      = valof (fround (valof a / valof b))"
    by (rule valof_signed_round)
  with s assms(3) show "valof (fdiv a b) = valof (fround (valof a / valof b))"
    by (simp add: fdiv_def)
qed

text \<open>Infinities are the extreme values.\<close>

lemma valof_is_inf: "is_inf w \<Longrightarrow> valof w = (if f_sign w then - (2 ^ 1024) else 2 ^ 1024)"
  by (simp add: valof_def is_inf_def mag_val_inf)

lemma finite_abs_valof: "f_mag w < inf_mag \<Longrightarrow> \<bar>valof w\<bar> < 2 ^ 1024"
  by (simp only: abs_valof mag_val_inf [symmetric] mag_val_less_iff)

lemma mono_ext:
  assumes fin: "\<And>x y. f_mag x < inf_mag \<Longrightarrow> f_mag y < inf_mag \<Longrightarrow> valof x \<le> valof y
      \<Longrightarrow> valof (F x) \<le> valof (F y)"
    and nn: "\<And>x. \<not> is_nan x \<Longrightarrow> \<not> is_nan (F x)"
    and inf: "\<And>x. is_inf x \<Longrightarrow> is_inf (F x) \<and> f_sign (F x) = f_sign x"
    and x: "\<not> is_nan x" and y: "\<not> is_nan y" and le: "valof x \<le> valof y"
  shows "valof (F x) \<le> valof (F y)"
proof -
  have ubx: "\<bar>valof (F x)\<bar> \<le> 2 ^ 1024" using nn [OF x] by (rule abs_valof_le)
  have uby: "\<bar>valof (F y)\<bar> \<le> 2 ^ 1024" using nn [OF y] by (rule abs_valof_le)
  have low: "is_inf x \<Longrightarrow> f_sign x \<Longrightarrow> ?thesis"
  proof -
    assume i: "is_inf x" and s: "f_sign x"
    from inf [OF i] s have "valof (F x) = - (2 ^ 1024)" by (simp add: valof_is_inf)
    with uby show ?thesis by linarith
  qed
  have high: "is_inf y \<Longrightarrow> \<not> f_sign y \<Longrightarrow> ?thesis"
  proof -
    assume i: "is_inf y" and s: "\<not> f_sign y"
    from inf [OF i] s have "valof (F y) = 2 ^ 1024" by (simp add: valof_is_inf)
    with ubx show ?thesis by linarith
  qed
  show ?thesis
  proof (cases "is_inf x")
    case ix: True
    show ?thesis
    proof (cases "f_sign x")
      case True
      with ix show ?thesis by (rule low)
    next
      case False
      with ix have vx: "valof x = 2 ^ 1024" by (simp add: valof_is_inf)
      have "is_inf y \<and> \<not> f_sign y"
      proof (cases "is_inf y")
        case True
        with vx le show ?thesis by (auto simp: valof_is_inf split: if_splits)
      next
        case False
        with y have "f_mag y < inf_mag" by (simp add: is_nan_def is_inf_def)
        then have "\<bar>valof y\<bar> < 2 ^ 1024" by (rule finite_abs_valof)
        with vx le show ?thesis by linarith
      qed
      then show ?thesis using high by simp
    qed
  next
    case nx: False
    with x have fx: "f_mag x < inf_mag" by (simp add: is_nan_def is_inf_def)
    show ?thesis
    proof (cases "is_inf y")
      case iy: True
      show ?thesis
      proof (cases "f_sign y")
        case True
        with iy have "valof y = - (2 ^ 1024)" by (simp add: valof_is_inf)
        with finite_abs_valof [OF fx] le show ?thesis by linarith
      next
        case False
        with iy show ?thesis by (rule high)
      qed
    next
      case False
      with y have "f_mag y < inf_mag" by (simp add: is_nan_def is_inf_def)
      with fx le show ?thesis by (intro fin)
    qed
  qed
qed


text \<open>
  Each operation of the scorer is monotone in the operand that carries the value, over
  all operands that are not a NaN, when the other operand is finite (and positive for a
  product or a quotient).
\<close>

lemma fadd_not_nan:
  assumes "f_mag c < inf_mag" and "\<not> is_nan x"
  shows "\<not> is_nan (fadd c x)"
proof (cases "is_inf x")
  case True
  with assms show ?thesis by (simp add: fadd_def finite_not_special)
next
  case False
  with assms(2) have "f_mag x < inf_mag" by (simp add: is_nan_def is_inf_def)
  with assms(1) show ?thesis by (rule valof_fadd(1))
qed

lemma fadd_mono:
  assumes c: "f_mag c < inf_mag" and "\<not> is_nan x" and "\<not> is_nan y" and "valof x \<le> valof y"
  shows "valof (fadd c x) \<le> valof (fadd c y)"
proof (rule mono_ext [where F = "fadd c"])
  fix x y
  assume "f_mag x < inf_mag" "f_mag y < inf_mag" "valof x \<le> valof y"
  then show "valof (fadd c x) \<le> valof (fadd c y)"
    by (simp add: valof_fadd(2) [OF c] rv_mono)
next
  fix x
  assume "\<not> is_nan x"
  with c show "\<not> is_nan (fadd c x)" by (rule fadd_not_nan)
next
  fix x
  assume "is_inf x"
  then have "fadd c x = x" using c by (simp add: fadd_def finite_not_special is_nan_def is_inf_def)
  with \<open>is_inf x\<close> show "is_inf (fadd c x) \<and> f_sign (fadd c x) = f_sign x" by simp
qed (rule assms)+

lemma fsub_not_nan:
  assumes "f_mag c < inf_mag" and "\<not> is_nan x"
  shows "\<not> is_nan (fsub x c)"
proof (cases "is_inf x")
  case True
  with assms show ?thesis by (simp add: fsub_def fadd_def finite_not_special)
next
  case False
  with assms(2) have "f_mag x < inf_mag" by (simp add: is_nan_def is_inf_def)
  moreover have "f_mag (fneg c) < inf_mag" using assms(1) by simp
  ultimately show ?thesis unfolding fsub_def by (rule valof_fadd(1))
qed

lemma valof_fsub:
  assumes "f_mag x < inf_mag" and "f_mag c < inf_mag"
  shows "valof (fsub x c) = valof (fround (valof x - valof c))"
proof -
  have "f_mag (fneg c) < inf_mag" using assms(2) by simp
  with assms(1) have "valof (fadd x (fneg c)) = valof (fround (valof x + valof (fneg c)))"
    by (rule valof_fadd(2))
  then show ?thesis by (simp add: fsub_def)
qed

lemma fsub_mono:
  assumes c: "f_mag c < inf_mag" and "\<not> is_nan x" and "\<not> is_nan y" and "valof x \<le> valof y"
  shows "valof (fsub x c) \<le> valof (fsub y c)"
proof (rule mono_ext [where F = "\<lambda>x. fsub x c"])
  fix x y
  assume "f_mag x < inf_mag" "f_mag y < inf_mag" "valof x \<le> valof y"
  then show "valof (fsub x c) \<le> valof (fsub y c)"
    by (simp add: valof_fsub c rv_mono)
next
  fix x
  assume "\<not> is_nan x"
  with c show "\<not> is_nan (fsub x c)" by (rule fsub_not_nan)
next
  fix x
  assume "is_inf x"
  then have "fsub x c = x"
    using c by (simp add: fsub_def fadd_def finite_not_special is_nan_def is_inf_def)
  with \<open>is_inf x\<close> show "is_inf (fsub x c) \<and> f_sign (fsub x c) = f_sign x" by simp
qed (rule assms)+

lemma pos_finite:
  assumes "f_mag c < inf_mag" and "0 < valof c"
  shows "\<not> is_nan c" "\<not> is_inf c" "\<not> is_zero c" "\<not> f_sign c"
  using assms finite_not_special [OF assms(1)] valof_pos_sign [OF assms(2)]
  by (simp_all add: is_zero_valof)

lemma fmul_not_nan:
  assumes "f_mag c < inf_mag" and "0 < valof c" and "\<not> is_nan x"
  shows "\<not> is_nan (fmul c x)"
  using fmul_sign [of c x] pos_finite [OF assms(1,2)] assms(3) by simp

lemma fmul_mono:
  assumes c: "f_mag c < inf_mag" and p: "0 < valof c"
    and "\<not> is_nan x" and "\<not> is_nan y" and "valof x \<le> valof y"
  shows "valof (fmul c x) \<le> valof (fmul c y)"
proof (rule mono_ext [where F = "fmul c"])
  fix x y
  assume "f_mag x < inf_mag" "f_mag y < inf_mag" "valof x \<le> valof y"
  then show "valof (fmul c x) \<le> valof (fmul c y)"
    using p by (simp add: valof_fmul(2) [OF c] rv_mono)
next
  fix x
  assume "\<not> is_nan x"
  with c p show "\<not> is_nan (fmul c x)" by (rule fmul_not_nan)
next
  fix x
  assume "is_inf x"
  then have "fmul c x = f64_inf (f_sign x)"
    using pos_finite [OF c p] inf_not_zero [of x]
    by (simp add: fmul_def finite_not_special [OF c] is_nan_def [of x] is_inf_def [of x])
  then show "is_inf (fmul c x) \<and> f_sign (fmul c x) = f_sign x" by (simp add: f64_inf_props)
qed (rule assms)+

lemma fdiv_not_nan:
  assumes "f_mag c < inf_mag" and "0 < valof c" and "\<not> is_nan x"
  shows "\<not> is_nan (fdiv x c)"
  using fdiv_sign [of x c] pos_finite [OF assms(1,2)] assms(3) by simp

lemma fdiv_mono:
  assumes c: "f_mag c < inf_mag" and p: "0 < valof c"
    and "\<not> is_nan x" and "\<not> is_nan y" and "valof x \<le> valof y"
  shows "valof (fdiv x c) \<le> valof (fdiv y c)"
proof (rule mono_ext [where F = "\<lambda>x. fdiv x c"])
  fix x y
  assume "f_mag x < inf_mag" "f_mag y < inf_mag" "valof x \<le> valof y"
  then show "valof (fdiv x c) \<le> valof (fdiv y c)"
    using p pos_finite(3) [OF c p] by (simp add: valof_fdiv(2) c rv_mono divide_right_mono)
next
  fix x
  assume "\<not> is_nan x"
  with c p show "\<not> is_nan (fdiv x c)" by (rule fdiv_not_nan)
next
  fix x
  assume "is_inf x"
  then have "fdiv x c = f64_inf (f_sign x)"
    using pos_finite [OF c p] by (simp add: fdiv_def is_nan_def is_inf_def) 
  then show "is_inf (fdiv x c) \<and> f_sign (fdiv x c) = f_sign x" by (simp add: f64_inf_props)
qed (rule assms)+


text \<open>
  The product \<open>25 * x\<close> of a value of the format, when it does not overflow, is rounded
  with a relative error of at most \<open>2^-53\<close>: below \<open>2^-1022\<close> it is exact.
\<close>

lemma pow2_nonneg: "0 \<le> pow2 k"
  by (rule less_imp_le) (rule pow2_pos)

lemma round_mag_finite:
  assumes "round_mag a < inf_mag" and "0 < a"
  shows "a < pow2 1024" and "f_exp a \<le> 2046"
proof -
  show a: "a < pow2 1024"
  proof (rule ccontr)
    assume "\<not> a < pow2 1024"
    then have "round_mag a = inf_mag" by (intro round_mag_overflow) simp
    with assms(1) show False by simp
  qed
  show "f_exp a \<le> 2046" using f_exp_le [OF assms(2) a] by simp
qed

lemma round_25_err:
  assumes b: "b < inf_mag" and fin: "round_mag (25 * mag_val b) < inf_mag"
  shows "mag_val (round_mag (25 * mag_val b)) \<le> 25 * mag_val b * (1 + pow2 (- 53))"
proof (cases "b = 0")
  case True
  then show ?thesis by simp
next
  case False
  then have mb: "0 < mag_val b" using mag_val_strict_mono [of 0 b] by simp
  define a where "a = 25 * mag_val b"
  have a: "0 < a" using mb by (simp add: a_def)
  have e: "f_exp a \<le> 2046" using fin a unfolding a_def [symmetric] by (rule round_mag_finite(2))
  have val: "mag_val (round_mag a) = real_of_int (rne (a / pow2 (f_exp a - 1075))) * pow2 (f_exp a - 1075)"
    using a e by (rule round_mag_val)
  have "mag_val (round_mag a) \<le> a * (1 + pow2 (- 53))"
  proof (cases "f_exp a = 1")
    case True
    have sub: "b < 2 ^ 52"
    proof (rule ccontr)
      assume "\<not> b < 2 ^ 52"
      then have n: "2 ^ 52 \<le> b" by simp
      then have "1 \<le> b div 2 ^ 52" by (simp add: Suc_le_eq div_greater_zero_iff)
      then have "pow2 (- 1022) \<le> pow2 (int (b div 2 ^ 52) - 1023)" by (intro pow2_mono) simp
      also have "\<dots> \<le> mag_val b" using n by (rule mag_val_lower_norm)
      finally have "pow2 (- 1022) \<le> mag_val b" .
      then have "16 * pow2 (- 1022) \<le> a"
        using pow2_pos [of "- 1022"] unfolding a_def by linarith
      moreover have "pow2 (4 + (- 1022)) = pow2 4 * pow2 (- 1022)" by (rule pow2_add)
      then have "pow2 (- 1018) = 16 * pow2 (- 1022)" by (simp add: pow2_def [of 4])
      ultimately have "pow2 (- 1018) \<le> a" by simp
      with a have "- 1018 \<le> ilog2 a" by (rule ilog2_ge) 
      with True show False by (simp add: f_exp_def)
    qed
    then have ae: "a = real_of_int (25 * int b) * pow2 (- 1074)" by (simp add: a_def mag_val_sub)
    have fe: "pow2 (f_exp a - 1075) = pow2 (- 1074)" by (simp add: True)
    have s: "a / pow2 (- 1074) = real_of_int (25 * int b)"
      by (subst ae) simp
    have "mag_val (round_mag a) = real_of_int (25 * int b) * pow2 (- 1074)"
      unfolding val fe s rne_of_int by (rule refl)
    also have "\<dots> = a" by (rule ae [symmetric])
    finally have "mag_val (round_mag a) = a" .
    moreover have "0 \<le> a * pow2 (- 53)"
      by (intro mult_nonneg_nonneg less_imp_le [OF a] less_imp_le [OF pow2_pos])
    ultimately show ?thesis by (simp add: algebra_simps)
  next
    case False
    with f_exp_ge_1 [of a] have f: "f_exp a = ilog2 a + 1023" by (simp add: f_exp_def)
    have "\<bar>mag_val (round_mag a) - a\<bar> \<le> pow2 (f_exp a - 1076)" using a e by (rule round_mag_err)
    also have "pow2 (f_exp a - 1076) = pow2 (ilog2 a + (- 53))" by (simp add: f)
    also have "\<dots> = pow2 (ilog2 a) * pow2 (- 53)" by (rule pow2_add)
    also have "\<dots> \<le> a * pow2 (- 53)" using ilog2_spec [OF a] by (intro mult_right_mono) (simp_all add: pow2_nonneg)
    finally have "mag_val (round_mag a) - a \<le> a * pow2 (- 53)" by linarith
    then show ?thesis by (simp add: algebra_simps)
  qed
  then show ?thesis by (simp add: a_def)
qed

text \<open>Two neighbouring values of the format differ by at least \<open>2^-53\<close> of the larger.\<close>

lemma gap_step:
  fixes X s x :: real
  assumes "0 \<le> s" and "X * pow2 (- 53) \<le> 1" and "x \<le> (X - 1) * s"
  shows "x \<le> X * s * (1 - pow2 (- 53))"
proof -
  have "X * pow2 (- 53) * s \<le> 1 * s" using assms(2,1) by (rule mult_right_mono)
  with assms(3) show ?thesis by (simp add: algebra_simps)
qed

lemma p53: "pow2 (- 53) = 1 / 2 ^ 53"
  by (simp add: pow2_def)

lemma mag_val_pred:
  assumes "1 \<le> b"
  shows "mag_val (b - 1) \<le> mag_val b * (1 - pow2 (- 53))"
proof (cases "b \<le> 2 ^ 53")
  case True
  have "mag_val ((1 - 1) * 2 ^ 52 + b) = real b * pow2 (int 1 - 1075)"
    using True by (intro mag_val_compose) simp_all
  then have 1: "mag_val b = real b * pow2 (- 1074)" by simp
  have "mag_val ((1 - 1) * 2 ^ 52 + (b - 1)) = real (b - 1) * pow2 (int 1 - 1075)"
    using True by (intro mag_val_compose) simp_all
  then have 2: "mag_val (b - 1) = (real b - 1) * pow2 (- 1074)" using assms by simp
  have "real b \<le> 2 ^ 53" using True by (rule real_le_pow2)
  then have 3: "real b * pow2 (- 53) \<le> 1" by (simp add: p53)
  have "mag_val (b - 1) \<le> real b * pow2 (- 1074) * (1 - pow2 (- 53))"
    by (rule gap_step [OF less_imp_le [OF pow2_pos] 3 eq_refl [OF 2]])
  then show ?thesis by (simp only: 1)
next
  case False
  define E f where "E = b div 2 ^ 52" and "f = b mod 2 ^ 52"
  have bE: "b = E * 2 ^ 52 + f" by (simp add: E_def f_def)
  have f: "f < 2 ^ 52" by (simp add: f_def)
  have E: "2 \<le> E"
  proof (rule ccontr)
    assume "\<not> 2 \<le> E"
    then have "E \<le> 1" by simp
    then have "E * 2 ^ 52 \<le> 1 * 2 ^ 52" by (rule mult_le_mono1)
    with f bE False show False by simp
  qed
  have 1: "mag_val b = real (2 ^ 52 + f) * pow2 (int E - 1075)"
    unfolding bE using E f by (intro mag_val_split) simp_all
  show ?thesis
  proof (cases "f = 0")
    case f0: False
    then have "b - 1 = E * 2 ^ 52 + (f - 1)" by (simp add: bE)
    moreover have "mag_val (E * 2 ^ 52 + (f - 1)) = real (2 ^ 52 + (f - 1)) * pow2 (int E - 1075)"
      using E f by (intro mag_val_split) simp_all
    ultimately have 2: "mag_val (b - 1) = (real (2 ^ 52 + f) - 1) * pow2 (int E - 1075)"
      using f0 by simp
    have "2 ^ 52 + f \<le> 2 ^ 53" using f by simp
    then have "real (2 ^ 52 + f) \<le> 2 ^ 53" by (rule real_le_pow2)
    then have 3: "real (2 ^ 52 + f) * pow2 (- 53) \<le> 1" by (simp add: p53)
    have "mag_val (b - 1) \<le> real (2 ^ 52 + f) * pow2 (int E - 1075) * (1 - pow2 (- 53))"
      by (rule gap_step [OF less_imp_le [OF pow2_pos] 3 eq_refl [OF 2]])
    then show ?thesis by (simp only: 1)
  next
    case f0: True
    have "b - 1 = (E - 1) * 2 ^ 52 + (2 ^ 52 - 1)" using E by (simp add: bE f0 algebra_simps)
    moreover have "mag_val ((E - 1) * 2 ^ 52 + (2 ^ 52 - 1))
        = real (2 ^ 52 + (2 ^ 52 - 1)) * pow2 (int (E - 1) - 1075)"
      using E by (intro mag_val_split) simp_all
    ultimately have 2: "mag_val (b - 1) = (2 ^ 53 - 1) * pow2 (int E - 1076)"
      using E by simp
    have "pow2 (int E - 1075) = pow2 (int E - 1076 + 1)" by simp
    also have "\<dots> = pow2 (int E - 1076) * 2" unfolding pow2_add by (simp add: pow2_def)
    finally have m1: "mag_val b = 2 ^ 53 * pow2 (int E - 1076)" by (simp add: 1 f0)
    have 3: "(2 ^ 53 :: real) * pow2 (- 53) \<le> 1" by (simp add: p53)
    have "mag_val (b - 1) \<le> 2 ^ 53 * pow2 (int E - 1076) * (1 - pow2 (- 53))"
      by (rule gap_step [OF less_imp_le [OF pow2_pos] 3 eq_refl [OF 2]])
    then show ?thesis by (simp only: m1)
  qed
qed

lemma mag_val_below:
  assumes "c < b"
  shows "mag_val c \<le> mag_val b * (1 - pow2 (- 53))"
proof -
  from assms have "c \<le> b - 1" and "1 \<le> b" by simp_all
  from this(1) have "mag_val c \<le> mag_val (b - 1)" by (rule mag_val_mono)
  also have "\<dots> \<le> mag_val b * (1 - pow2 (- 53))" using \<open>1 \<le> b\<close> by (rule mag_val_pred)
  finally show ?thesis .
qed

section \<open>Verdict classification\<close>

text \<open>
  C2. For every integer overall score, \<open>determineVerdict\<close> assigns the two role labels
  by tier: from 80 on both clients are "Ready"; from 60 to 79 the execution client is
  "Marginal" and the consensus client "Ready"; from 40 to 59 both are "Marginal"; below
  40 the execution client is "Unsuitable" and the consensus client "Marginal".
\<close>

theorem determineVerdict_tiers:
  "(80 \<le> score \<longrightarrow>
      ExecutionClient (determineVerdict score results) = ''Ready'' \<and>
      ConsensusClient (determineVerdict score results) = ''Ready'') \<and>
   (60 \<le> score \<and> score \<le> 79 \<longrightarrow>
      ExecutionClient (determineVerdict score results) = ''Marginal'' \<and>
      ConsensusClient (determineVerdict score results) = ''Ready'') \<and>
   (40 \<le> score \<and> score \<le> 59 \<longrightarrow>
      ExecutionClient (determineVerdict score results) = ''Marginal'' \<and>
      ConsensusClient (determineVerdict score results) = ''Marginal'') \<and>
   (score < 40 \<longrightarrow>
      ExecutionClient (determineVerdict score results) = ''Unsuitable'' \<and>
      ConsensusClient (determineVerdict score results) = ''Marginal'')"
  by (simp add: determineVerdict_def Let_def)

text \<open>The boundary scores 80, 79, 40 and 39 of the claim, one in each tier.\<close>

theorem determineVerdict_tiers_witness:
  "ExecutionClient (determineVerdict 80 zeroResults) = ''Ready'' \<and>
   ExecutionClient (determineVerdict 79 zeroResults) = ''Marginal'' \<and>
   ConsensusClient (determineVerdict 79 zeroResults) = ''Ready'' \<and>
   ExecutionClient (determineVerdict 40 zeroResults) = ''Marginal'' \<and>
   ConsensusClient (determineVerdict 40 zeroResults) = ''Marginal'' \<and>
   ExecutionClient (determineVerdict 39 zeroResults) = ''Unsuitable''"
  using determineVerdict_tiers [of 80 zeroResults] determineVerdict_tiers [of 79 zeroResults]
    determineVerdict_tiers [of 40 zeroResults] determineVerdict_tiers [of 39 zeroResults]
  by simp

text \<open>
  C6. For every \<open>Results\<close> value and overall score, the recommendations are the baseline
  advisories of the selected tier followed by the conditional advisories, each added
  exactly when its raw metric is below its threshold (random read IOPS below 10000, ECDSA
  verifications per second below 500, BLS verifications per second below 100), in that
  order, whatever the tier.
\<close>

theorem determineVerdict_recommendations:
  "Recommendations (determineVerdict score results) =
     tierRecommendations score
     @ (if flt (Random_ReadIOPS (Random (Disk results))) (f64 10000)
        then [randomIOAdvisory] else [])
     @ (if flt (ECDSA_VerificationsPerSecond (ECDSA (CPU results))) (f64 500)
        then [ecdsaAdvisory] else [])
     @ (if flt (BLS_VerificationsPerSecond (BLS (CPU results))) (f64 100)
        then [blsAdvisory] else [])"
  by (simp add: determineVerdict_def tierRecommendations_def Let_def)

text \<open>
  C10. For every \<open>Results\<close> value and every overall score the verdict has at least the
  baseline advisories of its tier, which are two or more, so the list is not empty, and
  each of the two client labels is one of "Ready", "Marginal" and "Unsuitable".
\<close>

theorem determineVerdict_wellformed:
  "Recommendations (determineVerdict score results) \<noteq> [] \<and>
   2 \<le> length (tierRecommendations score) \<and>
   take (length (tierRecommendations score)) (Recommendations (determineVerdict score results))
     = tierRecommendations score \<and>
   ExecutionClient (determineVerdict score results) \<in> {''Ready'', ''Marginal'', ''Unsuitable''} \<and>
   ConsensusClient (determineVerdict score results) \<in> {''Ready'', ''Marginal'', ''Unsuitable''}"
proof -
  have len: "2 \<le> length (tierRecommendations score)"
    by (simp add: tierRecommendations_def readyAdvisories_def consensusOnlyAdvisories_def
        belowSpecAdvisories_def unsuitableAdvisories_def)
  have recs: "\<exists>rest. Recommendations (determineVerdict score results)
      = tierRecommendations score @ rest"
    by (simp add: determineVerdict_def tierRecommendations_def Let_def)
  have labels: "ExecutionClient (determineVerdict score results)
        \<in> {''Ready'', ''Marginal'', ''Unsuitable''} \<and>
      ConsensusClient (determineVerdict score results)
        \<in> {''Ready'', ''Marginal'', ''Unsuitable''}"
    by (simp add: determineVerdict_def Let_def)
  from len have "tierRecommendations score \<noteq> []" by auto
  with recs len labels show ?thesis by auto
qed

section \<open>Time budget of the CPU benchmarks\<close>

text \<open>
  C7. With a CPU total of 60 seconds \<open>GetCPUTimeBudget\<close> gives exactly 15 s, 20 s, 15 s
  and 10 s. With the quick profile's 20 seconds the same ratios give 5 s,
  6666666666 ns, 5 s and 3333333333 ns (the quotients truncated to whole nanoseconds),
  which add up to one nanosecond less than the total.
\<close>

theorem GetCPUTimeBudget_profiles:
  "GetCPUTimeBudget (c\<lparr>CPUDuration := 60 * Second\<rparr>) =
     \<lparr>Keccak256 = 15 * Second, ECDSA_budget = 20 * Second,
      BLS_budget = 15 * Second, BN256_budget = 10 * Second\<rparr> \<and>
   GetCPUTimeBudget DefaultConfig = GetCPUTimeBudget (c\<lparr>CPUDuration := 60 * Second\<rparr>) \<and>
   GetCPUTimeBudget (c\<lparr>CPUDuration := 20 * Second\<rparr>) =
     \<lparr>Keccak256 = 5 * Second, ECDSA_budget = 6666666666,
      BLS_budget = 5 * Second, BN256_budget = 3333333333\<rparr> \<and>
   GetCPUTimeBudget QuickConfig = GetCPUTimeBudget (c\<lparr>CPUDuration := 20 * Second\<rparr>) \<and>
   Keccak256 (GetCPUTimeBudget QuickConfig) + ECDSA_budget (GetCPUTimeBudget QuickConfig)
     + BLS_budget (GetCPUTimeBudget QuickConfig) + BN256_budget (GetCPUTimeBudget QuickConfig)
     = 20 * Second - 1"
  by (simp add: GetCPUTimeBudget_def DefaultConfig_def QuickConfig_def Second_def div64_def
      signed_divide_int_def)

section \<open>The scorer on negative values\<close>




section \<open>The scorer at its breakpoints\<close>

text \<open>
  C4. For every breakpoint tuple with \<open>0 < poor < marginal < good < excellent\<close>,
  \<open>scoreMetric\<close> at the breakpoints returns the band boundaries: 25 at \<open>poor\<close>, 50 at
  \<open>marginal\<close>, 75 at \<open>good\<close> and 100 at \<open>excellent\<close>. The results are those exact
  \<open>float64\<close> values: at a breakpoint the interpolated part is \<open>25 * 0 / d\<close> with
  \<open>d\<close> positive or \<open>+Inf\<close>, which is \<open>0\<close> without rounding.
\<close>

theorem scoreMetric_breakpoints:
  assumes "flt (f64 0) poor" and "flt poor marginal" and "flt marginal good"
    and "flt good excellent"
  shows "scoreMetric poor poor marginal good excellent = f64 25 \<and>
         scoreMetric marginal poor marginal good excellent = f64 50 \<and>
         scoreMetric good poor marginal good excellent = f64 75 \<and>
         scoreMetric excellent poor marginal good excellent = f64 100"
proof -
  have z: "f64 0 = 0" by (simp add: f64_def fround_def)
  from assms have v: "0 < valof poor" "valof poor < valof marginal"
      "valof marginal < valof good" "valof good < valof excellent"
    and n: "\<not> is_nan poor" "\<not> is_nan marginal" "\<not> is_nan good" "\<not> is_nan excellent"
    by (simp_all add: flt_def z)
  from assms have pos: "flt (f64 0) marginal" "flt (f64 0) good"
    using v by (simp_all add: flt_def z)
  have "scoreMetric poor poor marginal good excellent
      = fadd (f64 25) (fdiv (fmul (f64 25) (fsub poor poor)) (fsub marginal poor))"
    using v n by (simp add: scoreMetric_def fge_def)
  then have 1: "scoreMetric poor poor marginal good excellent = f64 25"
    using scoreMetric_band_start [OF assms(1) assms(2)] by (simp add: f64_consts)
  have "scoreMetric marginal poor marginal good excellent
      = fadd (f64 50) (fdiv (fmul (f64 25) (fsub marginal marginal)) (fsub good marginal))"
    using v n by (simp add: scoreMetric_def fge_def)
  then have 2: "scoreMetric marginal poor marginal good excellent = f64 50"
    using scoreMetric_band_start [OF pos(1) assms(3)] by (simp add: f64_consts)
  have "scoreMetric good poor marginal good excellent
      = fadd (f64 75) (fdiv (fmul (f64 25) (fsub good good)) (fsub excellent good))"
    using v n by (simp add: scoreMetric_def fge_def)
  then have 3: "scoreMetric good poor marginal good excellent = f64 75"
    using scoreMetric_band_start [OF pos(2) assms(4)] by (simp add: f64_consts)
  have 4: "scoreMetric excellent poor marginal good excellent = f64 100"
    using n by (simp add: scoreMetric_def fge_def)
  from 1 2 3 4 show ?thesis by simp
qed

text \<open>The Keccak calibration curve of \<open>calculateCPUScore\<close>.\<close>

theorem scoreMetric_breakpoints_witness:
  "flt (f64 0) (f64 50000) \<and> flt (f64 50000) (f64 100000) \<and> flt (f64 100000) (f64 200000) \<and>
   flt (f64 200000) (f64 500000) \<and>
   scoreMetric (f64 50000) (f64 50000) (f64 100000) (f64 200000) (f64 500000) = f64 25 \<and>
   scoreMetric (f64 100000) (f64 50000) (f64 100000) (f64 200000) (f64 500000) = f64 50 \<and>
   scoreMetric (f64 200000) (f64 50000) (f64 100000) (f64 200000) (f64 500000) = f64 75 \<and>
   scoreMetric (f64 500000) (f64 50000) (f64 100000) (f64 200000) (f64 500000) = f64 100"
proof -
  have h: "flt (f64 0) (f64 50000)" "flt (f64 50000) (f64 100000)"
    "flt (f64 100000) (f64 200000)" "flt (f64 200000) (f64 500000)"
    by (simp_all add: f64_defs)
  from scoreMetric_breakpoints [OF h] h show ?thesis by simp
qed

section \<open>The scorer is monotone\<close>

text \<open>The constants of the scorer, and the largest quotient a band can reach.\<close>

lemma f64_levels:
  "f_mag (f64 25) < inf_mag" "valof (f64 25) = 25"
  "f_mag (f64 50) < inf_mag" "valof (f64 50) = 50"
  "f_mag (f64 75) < inf_mag" "valof (f64 75) = 75"
  "f_mag (f64 100) < inf_mag" "valof (f64 100) = 100"
  by (simp_all add: f64_defs)

lemma band_top:
  "\<not> is_nan (f64 (25 + 25 / 2 ^ 53))"
  "valof (fadd (f64 25) (f64 (25 + 25 / 2 ^ 53))) = 50"
  "valof (fadd (f64 50) (f64 (25 + 25 / 2 ^ 53))) = 75"
  "valof (fadd (f64 75) (f64 (25 + 25 / 2 ^ 53))) = 100"
  by (simp_all add: f64_defs)


lemma finite_of_valof: "\<not> is_nan w \<Longrightarrow> \<bar>valof w\<bar> < 2 ^ 1024 \<Longrightarrow> f_mag w < inf_mag"
  by (simp only: abs_valof mag_val_inf [symmetric] mag_val_less_iff)

lemma f_mag_mk_float_round: "f_mag (mk_float s (round_mag a)) = round_mag a"
  by (rule f_mag_mk_float) (rule round_mag_less)

lemma f_mag_fmul:
  assumes "f_mag a < inf_mag" and "f_mag b < inf_mag"
  shows "f_mag (fmul a b) = round_mag \<bar>valof a * valof b\<bar>"
  using finite_not_special [OF assms(1)] finite_not_special [OF assms(2)]
  by (simp add: fmul_def f_mag_mk_float_round)

lemma valof_nonneg_mag: "0 \<le> valof w \<Longrightarrow> valof w = mag_val (f_mag w)"
  using mag_val_nonneg [of "f_mag w"] by (auto simp: valof_def split: if_splits)

lemma f64_zero: "f64 0 = 0"
  by (simp add: f64_def fround_def)

text \<open>
  The product \<open>25 * x\<close> for a value \<open>x\<close> of the format between 0 and a bound whose own
  product is finite.
\<close>

lemma fmul_25:
  assumes x: "f_mag x < inf_mag" and x0: "0 \<le> valof x" and le: "valof x \<le> h"
    and fin: "round_mag (25 * h) < inf_mag"
  shows "f_mag (fmul (f64 25) x) < inf_mag"
    and "valof (fmul (f64 25) x) = mag_val (round_mag (25 * valof x))"
    and "valof (fmul (f64 25) x) \<le> 25 * valof x * (1 + pow2 (- 53))"
proof -
  have a: "\<bar>25 * valof x\<bar> = 25 * valof x" using x0 by simp
  have "round_mag (25 * valof x) \<le> round_mag (25 * h)" using x0 le by (intro round_mag_mono) simp_all
  with fin have r: "round_mag (25 * valof x) < inf_mag" by simp
  show "f_mag (fmul (f64 25) x) < inf_mag"
    using r by (simp add: f_mag_fmul [OF f64_levels(1) x] f64_levels(2) a)
  have "valof (fmul (f64 25) x) = valof (fround (25 * valof x))"
    using valof_fmul(2) [OF f64_levels(1) x] by (simp add: f64_levels(2))
  also have "\<dots> = mag_val (round_mag (25 * valof x))" using x0 by (simp add: valof_fround)
  finally show v: "valof (fmul (f64 25) x) = mag_val (round_mag (25 * valof x))" .
  have m: "valof x = mag_val (f_mag x)" using x0 by (rule valof_nonneg_mag)
  have "mag_val (round_mag (25 * mag_val (f_mag x))) \<le> 25 * mag_val (f_mag x) * (1 + pow2 (- 53))"
    using x r unfolding m by (rule round_25_err)
  then show "valof (fmul (f64 25) x) \<le> 25 * valof x * (1 + pow2 (- 53))"
    unfolding v m .
qed

text \<open>The width of a band is a finite positive value, at most the upper breakpoint.\<close>

lemma band_width:
  assumes lo: "flt (f64 0) lo" and lh: "flt lo hi" and hi: "f_mag hi < inf_mag"
  shows "f_mag lo < inf_mag" and "f_mag (fsub hi lo) < inf_mag" and "0 < valof (fsub hi lo)"
    and "valof (fsub hi lo) \<le> valof hi"
proof -
  note p = positive_below_finite [OF lo lh]
  show l: "f_mag lo < inf_mag" using p(1,2) by (simp add: is_nan_def is_inf_def)
  have v: "valof (fsub hi lo) = valof (fround (valof hi - valof lo))" using hi l by (rule valof_fsub)
  have l0: "0 < valof lo" using lo by (simp add: flt_def f64_zero)
  then have "valof (fround (valof hi - valof lo)) \<le> valof (fround (valof hi))"
    by (intro rv_mono) simp
  also have "\<dots> = valof hi" using finite_not_special(1) [OF hi] by (rule rv_valof)
  finally show le: "valof (fsub hi lo) \<le> valof hi" by (simp add: v)
  note d = fsub_pos [OF lo lh]
  have "valof (fsub hi lo) = mag_val (f_mag (fsub hi lo))" using d by (simp add: valof_nonneg)
  moreover have "f_mag (fsub hi lo) \<noteq> 0" using d by (simp add: is_zero_def)
  ultimately show pos: "0 < valof (fsub hi lo)"
    using mag_val_strict_mono [of 0 "f_mag (fsub hi lo)"] by simp
  have "\<bar>valof (fsub hi lo)\<bar> < 2 ^ 1024" using pos le finite_abs_valof [OF hi] by linarith
  with d show "f_mag (fsub hi lo) < inf_mag" by (simp add: finite_of_valof)
qed

text \<open>The quotient of a band: never a NaN, monotone in the value, between 0 and
  \<open>25 * (1 + 2^-53)\<close> rounded.\<close>

lemma band_value_mono:
  assumes lo: "flt (f64 0) lo" and lh: "flt lo hi" and hi: "f_mag hi < inf_mag"
    and x: "\<not> is_nan x" and y: "\<not> is_nan y" and le: "valof x \<le> valof y"
  shows "\<not> is_nan (fdiv (fmul (f64 25) (fsub x lo)) (fsub hi lo))"
    and "valof (fdiv (fmul (f64 25) (fsub x lo)) (fsub hi lo))
      \<le> valof (fdiv (fmul (f64 25) (fsub y lo)) (fsub hi lo))"
proof -
  note w = band_width [OF lo lh hi]
  note c = f64_levels(1)
  have cp: "0 < valof (f64 25)" by (simp add: f64_levels(2))
  have sx: "\<not> is_nan (fsub x lo)" using w(1) x by (rule fsub_not_nan)
  have sy: "\<not> is_nan (fsub y lo)" using w(1) y by (rule fsub_not_nan)
  have s: "valof (fsub x lo) \<le> valof (fsub y lo)" using w(1) x y le by (rule fsub_mono)
  have mx: "\<not> is_nan (fmul (f64 25) (fsub x lo))" using c cp sx by (rule fmul_not_nan)
  have my: "\<not> is_nan (fmul (f64 25) (fsub y lo))" using c cp sy by (rule fmul_not_nan)
  have m: "valof (fmul (f64 25) (fsub x lo)) \<le> valof (fmul (f64 25) (fsub y lo))"
    using c cp sx sy s by (rule fmul_mono)
  show "\<not> is_nan (fdiv (fmul (f64 25) (fsub x lo)) (fsub hi lo))"
    using w(2,3) mx by (rule fdiv_not_nan)
  show "valof (fdiv (fmul (f64 25) (fsub x lo)) (fsub hi lo))
      \<le> valof (fdiv (fmul (f64 25) (fsub y lo)) (fsub hi lo))"
    using w(2,3) mx my m by (rule fdiv_mono)
qed

lemma band_value_bounds:
  assumes lo: "flt (f64 0) lo" and lh: "flt lo hi" and hi: "f_mag hi < inf_mag"
    and fin: "round_mag (25 * valof hi) < inf_mag"
    and v: "\<not> is_nan v" and lv: "valof lo \<le> valof v" and vh: "valof v \<le> valof hi"
  shows "0 \<le> valof (fdiv (fmul (f64 25) (fsub v lo)) (fsub hi lo))"
    and "valof (fdiv (fmul (f64 25) (fsub v lo)) (fsub hi lo)) \<le> valof (f64 (25 + 25 / 2 ^ 53))"
proof -
  note w = band_width [OF lo lh hi]
  note nl = finite_not_special(1) [OF w(1)] and nh = finite_not_special(1) [OF hi]
  have "valof (fdiv (fmul (f64 25) (fsub lo lo)) (fsub hi lo))
      \<le> valof (fdiv (fmul (f64 25) (fsub v lo)) (fsub hi lo))"
    using lo lh hi nl v lv by (rule band_value_mono(2))
  then show "0 \<le> valof (fdiv (fmul (f64 25) (fsub v lo)) (fsub hi lo))"
    by (simp add: scoreMetric_band_start [OF lo lh])
  let ?d = "fsub hi lo"
  note m = fmul_25 [OF w(2) less_imp_le [OF w(3)] w(4) fin]
  have z: "\<not> is_zero ?d" using w(3) by (simp add: is_zero_valof)
  have "valof (fmul (f64 25) ?d) / valof ?d \<le> 25 * (1 + pow2 (- 53))"
    using m(3) w(3) by (simp add: pos_divide_le_eq algebra_simps)
  then have q: "valof (fmul (f64 25) ?d) / valof ?d \<le> 25 + 25 / 2 ^ 53"
    by (simp add: p53 algebra_simps)
  have "valof (fdiv (fmul (f64 25) (fsub v lo)) ?d)
      \<le> valof (fdiv (fmul (f64 25) (fsub hi lo)) ?d)"
    using lo lh hi v nh vh by (rule band_value_mono(2))
  also have "\<dots> = valof (fround (valof (fmul (f64 25) ?d) / valof ?d))"
    using m(1) w(2) z by (rule valof_fdiv(2))
  also have "\<dots> \<le> valof (fround (25 + 25 / 2 ^ 53))" using q by (rule rv_mono)
  finally show "valof (fdiv (fmul (f64 25) (fsub v lo)) ?d) \<le> valof (f64 (25 + 25 / 2 ^ 53))"
    by (simp only: f64_def)
qed

text \<open>Below the first breakpoint the score is monotone and at most 25.\<close>

lemma below_mono:
  assumes p: "f_mag p < inf_mag" and p0: "0 < valof p"
    and x: "\<not> is_nan x" and y: "\<not> is_nan y" and le: "valof x \<le> valof y"
  shows "\<not> is_nan (fdiv (fmul (f64 25) x) p)"
    and "valof (fdiv (fmul (f64 25) x) p) \<le> valof (fdiv (fmul (f64 25) y) p)"
proof -
  note c = f64_levels(1)
  have cp: "0 < valof (f64 25)" by (simp add: f64_levels(2))
  have mx: "\<not> is_nan (fmul (f64 25) x)" using c cp x by (rule fmul_not_nan)
  have my: "\<not> is_nan (fmul (f64 25) y)" using c cp y by (rule fmul_not_nan)
  have m: "valof (fmul (f64 25) x) \<le> valof (fmul (f64 25) y)" using c cp x y le by (rule fmul_mono)
  show "\<not> is_nan (fdiv (fmul (f64 25) x) p)" using p p0 mx by (rule fdiv_not_nan)
  show "valof (fdiv (fmul (f64 25) x) p) \<le> valof (fdiv (fmul (f64 25) y) p)"
    using p p0 mx my m by (rule fdiv_mono)
qed

lemma below_upper:
  assumes p: "f_mag p < inf_mag" and p0: "0 < valof p"
    and fin: "round_mag (25 * valof p) < inf_mag"
    and v: "\<not> is_nan v" and vp: "valof v < valof p"
  shows "valof (fdiv (fmul (f64 25) v) p) \<le> 25"
proof (cases "valof v < 0")
  case True
  have "fmul (f64 25) 0 = 0" using f64_consts(1-3) by (rule fmul_zero_right)
  moreover have "fdiv 0 p = 0" using pos_finite [OF p p0] by (intro fdiv_zero_left)
  ultimately have z: "valof (fdiv (fmul (f64 25) 0) p) = 0" by simp
  have "\<not> is_nan (0 :: float64)" and "valof v \<le> valof 0" using True by simp_all
  with p p0 v have "valof (fdiv (fmul (f64 25) v) p) \<le> valof (fdiv (fmul (f64 25) 0) p)"
    by (rule below_mono(2))
  with z show ?thesis by simp
next
  case False
  then have v0: "0 \<le> valof v" by simp
  have "\<bar>valof v\<bar> < 2 ^ 1024" using v0 vp finite_abs_valof [OF p] by linarith
  with v have fv: "f_mag v < inf_mag" by (rule finite_of_valof)
  note m = fmul_25 [OF fv v0 less_imp_le [OF vp] fin]
  have mv: "valof v = mag_val (f_mag v)" using v0 by (rule valof_nonneg_mag)
  have mp: "valof p = mag_val (f_mag p)" using p0 by (intro valof_nonneg_mag) simp
  from vp have "f_mag v < f_mag p" by (simp add: mv mp mag_val_less_iff)
  then have g: "valof v \<le> valof p * (1 - pow2 (- 53))"
    unfolding mv mp by (rule mag_val_below)
  have e: "0 \<le> 1 + pow2 (- 53)" using pow2_nonneg [of "- 53"] by simp
  have "valof (fmul (f64 25) v) \<le> 25 * valof v * (1 + pow2 (- 53))" by (rule m(3))
  also have "\<dots> \<le> 25 * (valof p * (1 - pow2 (- 53))) * (1 + pow2 (- 53))"
    using g e by (intro mult_right_mono mult_left_mono) simp_all
  also have "\<dots> = 25 * valof p - 25 * valof p * (pow2 (- 53) * pow2 (- 53))"
    by (simp add: algebra_simps)
  also have "\<dots> \<le> 25 * valof p"
    using p0 pow2_nonneg [of "- 53"] by simp
  finally have "valof (fmul (f64 25) v) / valof p \<le> 25" using p0 by (simp add: pos_divide_le_eq)
  then have "valof (fround (valof (fmul (f64 25) v) / valof p)) \<le> valof (fround 25)"
    by (rule rv_mono)
  also have "valof (fround 25) = 25" using f64_levels(2) by (simp only: f64_def)
  finally show ?thesis
    using valof_fdiv(2) [OF m(1) p pos_finite(3) [OF p p0]] by simp
qed


text \<open>A band with its base: never a NaN, monotone, between the base and the base plus 25
  (rounded).\<close>

lemma band_score:
  assumes lo: "flt (f64 0) lo" and lh: "flt lo hi" and hi: "f_mag hi < inf_mag"
    and fin: "round_mag (25 * valof hi) < inf_mag" and c: "f_mag c < inf_mag"
    and v: "\<not> is_nan v" and lv: "valof lo \<le> valof v" and vh: "valof v \<le> valof hi"
  shows "\<not> is_nan (fadd c (fdiv (fmul (f64 25) (fsub v lo)) (fsub hi lo)))"
    and "valof (fadd c 0) \<le> valof (fadd c (fdiv (fmul (f64 25) (fsub v lo)) (fsub hi lo)))"
    and "valof (fadd c (fdiv (fmul (f64 25) (fsub v lo)) (fsub hi lo)))
      \<le> valof (fadd c (f64 (25 + 25 / 2 ^ 53)))"
proof -
  let ?t = "fdiv (fmul (f64 25) (fsub v lo)) (fsub hi lo)"
  have n: "\<not> is_nan ?t" using lo lh hi v v order_refl by (rule band_value_mono(1))
  note b = band_value_bounds [OF lo lh hi fin v lv vh]
  show "\<not> is_nan (fadd c ?t)" using c n by (rule fadd_not_nan)
  show "valof (fadd c 0) \<le> valof (fadd c ?t)"
    using c _ n by (rule fadd_mono) (simp_all add: b(1))
  show "valof (fadd c ?t) \<le> valof (fadd c (f64 (25 + 25 / 2 ^ 53)))"
    using c n band_top(1) b(2) by (rule fadd_mono)
qed

lemma band_score_mono:
  assumes lo: "flt (f64 0) lo" and lh: "flt lo hi" and hi: "f_mag hi < inf_mag"
    and c: "f_mag c < inf_mag"
    and x: "\<not> is_nan x" and y: "\<not> is_nan y" and le: "valof x \<le> valof y"
  shows "valof (fadd c (fdiv (fmul (f64 25) (fsub x lo)) (fsub hi lo)))
      \<le> valof (fadd c (fdiv (fmul (f64 25) (fsub y lo)) (fsub hi lo)))"
proof -
  have nx: "\<not> is_nan (fdiv (fmul (f64 25) (fsub x lo)) (fsub hi lo))"
    using lo lh hi x x order_refl by (rule band_value_mono(1))
  have ny: "\<not> is_nan (fdiv (fmul (f64 25) (fsub y lo)) (fsub hi lo))"
    using lo lh hi y y order_refl by (rule band_value_mono(1))
  have "valof (fdiv (fmul (f64 25) (fsub x lo)) (fsub hi lo))
      \<le> valof (fdiv (fmul (f64 25) (fsub y lo)) (fsub hi lo))"
    using lo lh hi x y le by (rule band_value_mono(2))
  with c nx ny show ?thesis by (rule fadd_mono)
qed

text \<open>What the hypotheses on the breakpoints give.\<close>

lemma breakpoints_finite:
  assumes p: "flt (f64 0) poor" and pm: "flt poor marginal" and mg: "flt marginal good"
    and ge: "flt good excellent" and H: "\<not> is_inf (fmul (f64 25) excellent)"
  shows "f_mag poor < inf_mag" and "f_mag marginal < inf_mag" and "f_mag good < inf_mag"
    and "f_mag excellent < inf_mag"
    and "0 < valof poor" and "valof poor < valof marginal" and "valof marginal < valof good"
    and "valof good < valof excellent"
    and "round_mag (25 * valof poor) < inf_mag" and "round_mag (25 * valof marginal) < inf_mag"
    and "round_mag (25 * valof good) < inf_mag" and "round_mag (25 * valof excellent) < inf_mag"
    and "flt (f64 0) marginal" and "flt (f64 0) good"
proof -
  show o: "0 < valof poor" "valof poor < valof marginal" "valof marginal < valof good"
      "valof good < valof excellent"
    using p pm mg ge by (simp_all add: flt_def f64_zero)
  have ne: "\<not> is_nan excellent" using ge by (simp add: flt_def)
  have "\<not> is_inf excellent"
  proof
    assume i: "is_inf excellent"
    then have "fmul (f64 25) excellent = f64_inf (f_sign excellent)"
      using ne f64_consts(1-3) f64_25_nonzero inf_not_zero [OF i] by (simp add: fmul_def)
    with H show False by (simp add: f64_inf_props)
  qed
  with ne show e: "f_mag excellent < inf_mag" by (simp add: is_nan_def is_inf_def)
  show m0: "flt (f64 0) marginal" using p pm by (simp add: flt_def)
  show g0: "flt (f64 0) good" using p pm mg by (simp add: flt_def)
  show g: "f_mag good < inf_mag" using g0 ge e by (rule band_width(1))
  show m: "f_mag marginal < inf_mag" using m0 mg g by (rule band_width(1))
  show "f_mag poor < inf_mag" using p pm m by (rule band_width(1))
  have "f_mag (fmul (f64 25) excellent) = round_mag \<bar>valof (f64 25) * valof excellent\<bar>"
    using f64_levels(1) e by (rule f_mag_fmul)
  also have "\<bar>valof (f64 25) * valof excellent\<bar> = 25 * valof excellent"
    using o by (simp add: f64_levels(2))
  finally have "round_mag (25 * valof excellent) \<noteq> inf_mag" using H by (simp add: is_inf_def)
  with round_mag_le_inf [of "25 * valof excellent"]
  show r: "round_mag (25 * valof excellent) < inf_mag" by simp
  have "round_mag (25 * valof good) \<le> round_mag (25 * valof excellent)"
    using o by (intro round_mag_mono) simp_all
  with r show "round_mag (25 * valof good) < inf_mag" by simp
  have "round_mag (25 * valof marginal) \<le> round_mag (25 * valof excellent)"
    using o by (intro round_mag_mono) simp_all
  with r show "round_mag (25 * valof marginal) < inf_mag" by simp
  have "round_mag (25 * valof poor) \<le> round_mag (25 * valof excellent)"
    using o by (intro round_mag_mono) simp_all
  with r show "round_mag (25 * valof poor) < inf_mag" by simp
qed


text \<open>The score of a value lies in the quarter of the scale that belongs to its band.\<close>

lemma scoreMetric_band:
  assumes p: "flt (f64 0) poor" and pm: "flt poor marginal" and mg: "flt marginal good"
    and ge: "flt good excellent" and H: "\<not> is_inf (fmul (f64 25) excellent)"
    and v: "\<not> is_nan val"
  shows "\<not> is_nan (scoreMetric val poor marginal good excellent) \<and>
    (valof val < valof poor \<and> valof (scoreMetric val poor marginal good excellent) \<le> 25 \<or>
     valof poor \<le> valof val \<and> valof val < valof marginal \<and>
       25 \<le> valof (scoreMetric val poor marginal good excellent) \<and>
       valof (scoreMetric val poor marginal good excellent) \<le> 50 \<or>
     valof marginal \<le> valof val \<and> valof val < valof good \<and>
       50 \<le> valof (scoreMetric val poor marginal good excellent) \<and>
       valof (scoreMetric val poor marginal good excellent) \<le> 75 \<or>
     valof good \<le> valof val \<and> valof val < valof excellent \<and>
       75 \<le> valof (scoreMetric val poor marginal good excellent) \<and>
       valof (scoreMetric val poor marginal good excellent) \<le> 100 \<or>
     valof excellent \<le> valof val \<and>
       valof (scoreMetric val poor marginal good excellent) = 100)"
proof -
  let ?S = "scoreMetric val poor marginal good excellent"
  note b = breakpoints_finite [OF p pm mg ge H]
  note n = finite_not_special(1) [OF b(1)] finite_not_special(1) [OF b(2)]
    finite_not_special(1) [OF b(3)] finite_not_special(1) [OF b(4)]
  consider (z) "valof val < valof poor"
    | (a) "valof poor \<le> valof val" "valof val < valof marginal"
    | (b) "valof marginal \<le> valof val" "valof val < valof good"
    | (c) "valof good \<le> valof val" "valof val < valof excellent"
    | (d) "valof excellent \<le> valof val"
    by linarith
  then show ?thesis
  proof cases
    case z
    then have eq: "?S = fdiv (fmul (f64 25) val) poor"
      using b(6-8) by (simp add: scoreMetric_def fge_def)
    have "\<not> is_nan (fdiv (fmul (f64 25) val) poor)"
      using b(1) b(5) v v order_refl by (rule below_mono(1))
    moreover have "valof (fdiv (fmul (f64 25) val) poor) \<le> 25"
      using b(1) b(5) b(9) v z by (rule below_upper)
    ultimately show ?thesis using z unfolding eq by simp
  next
    case a
    then have eq: "?S = fadd (f64 25) (fdiv (fmul (f64 25) (fsub val poor)) (fsub marginal poor))"
      using b(6-8) v n by (simp add: scoreMetric_def fge_def)
    note s = band_score [OF p pm b(2) b(10) f64_levels(1) v a(1) less_imp_le [OF a(2)]]
    have "\<not> is_nan ?S" using s(1) unfolding eq .
    moreover have "25 \<le> valof ?S" using s(2) unfolding eq f64_consts(4) f64_levels(2) .
    moreover have "valof ?S \<le> 50" using s(3) unfolding eq band_top(2) .
    ultimately show ?thesis using a b(5-8) by simp
  next
    case b
    then have eq: "?S = fadd (f64 50) (fdiv (fmul (f64 25) (fsub val marginal)) (fsub good marginal))"
      using \<open>valof good < valof excellent\<close> v n by (simp add: scoreMetric_def fge_def)
    note s = band_score [OF \<open>flt (f64 0) marginal\<close> mg \<open>f_mag good < inf_mag\<close>
        \<open>round_mag (25 * valof good) < inf_mag\<close> f64_levels(3) v b(1) less_imp_le [OF b(2)]]
    have "\<not> is_nan ?S" using s(1) unfolding eq .
    moreover have "50 \<le> valof ?S" using s(2) unfolding eq f64_consts(5) f64_levels(4) .
    moreover have "valof ?S \<le> 75" using s(3) unfolding eq band_top(3) .
    ultimately show ?thesis
      using b \<open>valof poor < valof marginal\<close> \<open>valof good < valof excellent\<close> by simp
  next
    case c
    then have eq: "?S = fadd (f64 75) (fdiv (fmul (f64 25) (fsub val good)) (fsub excellent good))"
      using v n by (simp add: scoreMetric_def fge_def)
    note s = band_score [OF \<open>flt (f64 0) good\<close> ge \<open>f_mag excellent < inf_mag\<close>
        \<open>round_mag (25 * valof excellent) < inf_mag\<close> f64_levels(5) v c(1) less_imp_le [OF c(2)]]
    have "\<not> is_nan ?S" using s(1) unfolding eq .
    moreover have "75 \<le> valof ?S" using s(2) unfolding eq f64_consts(6) f64_levels(6) .
    moreover have "valof ?S \<le> 100" using s(3) unfolding eq band_top(4) .
    ultimately show ?thesis
      using c \<open>valof poor < valof marginal\<close> \<open>valof marginal < valof good\<close> by simp
  next
    case d
    then have eq: "?S = f64 100" using v n by (simp add: scoreMetric_def fge_def)
    have "\<not> is_nan (f64 100)" using f64_levels(7) by (rule finite_not_special(1))
    then show ?thesis
      using d \<open>valof poor < valof marginal\<close> \<open>valof marginal < valof good\<close>
        \<open>valof good < valof excellent\<close>
      by (simp add: eq f64_levels)
  qed
qed

text \<open>Two values of the same band.\<close>

lemma scoreMetric_same_band:
  assumes p: "flt (f64 0) poor" and pm: "flt poor marginal" and mg: "flt marginal good"
    and ge: "flt good excellent" and H: "\<not> is_inf (fmul (f64 25) excellent)"
    and x: "\<not> is_nan x" and y: "\<not> is_nan y" and le: "valof x \<le> valof y"
    and sp: "valof poor \<le> valof x \<longleftrightarrow> valof poor \<le> valof y"
    and sm: "valof marginal \<le> valof x \<longleftrightarrow> valof marginal \<le> valof y"
    and sg: "valof good \<le> valof x \<longleftrightarrow> valof good \<le> valof y"
    and se: "valof excellent \<le> valof x \<longleftrightarrow> valof excellent \<le> valof y"
  shows "valof (scoreMetric x poor marginal good excellent)
    \<le> valof (scoreMetric y poor marginal good excellent)"
proof -
  note b = breakpoints_finite [OF p pm mg ge H]
  note n = finite_not_special(1) [OF b(1)] finite_not_special(1) [OF b(2)]
    finite_not_special(1) [OF b(3)] finite_not_special(1) [OF b(4)]
  have f: "fge x excellent = fge y excellent" "fge x good = fge y good"
    "fge x marginal = fge y marginal" "fge x poor = fge y poor"
    using x y n sp sm sg se by (simp_all add: fge_def)
  show ?thesis
  proof (cases "fge y excellent")
    case True
    then show ?thesis by (simp add: scoreMetric_def f)
  next
    case e: False
    show ?thesis
    proof (cases "fge y good")
      case True
      have "valof (fadd (f64 75) (fdiv (fmul (f64 25) (fsub x good)) (fsub excellent good)))
          \<le> valof (fadd (f64 75) (fdiv (fmul (f64 25) (fsub y good)) (fsub excellent good)))"
        using b(14) ge b(4) f64_levels(5) x y le by (rule band_score_mono)
      with e True show ?thesis by (simp add: scoreMetric_def f)
    next
      case g: False
      show ?thesis
      proof (cases "fge y marginal")
        case True
        have "valof (fadd (f64 50) (fdiv (fmul (f64 25) (fsub x marginal)) (fsub good marginal)))
            \<le> valof (fadd (f64 50) (fdiv (fmul (f64 25) (fsub y marginal)) (fsub good marginal)))"
          using b(13) mg b(3) f64_levels(3) x y le by (rule band_score_mono)
        with e g True show ?thesis by (simp add: scoreMetric_def f)
      next
        case m: False
        show ?thesis
        proof (cases "fge y poor")
          case True
          have "valof (fadd (f64 25) (fdiv (fmul (f64 25) (fsub x poor)) (fsub marginal poor)))
              \<le> valof (fadd (f64 25) (fdiv (fmul (f64 25) (fsub y poor)) (fsub marginal poor)))"
            using p pm b(2) f64_levels(1) x y le by (rule band_score_mono)
          with e g m True show ?thesis by (simp add: scoreMetric_def f)
        next
          case False
          have "valof (fdiv (fmul (f64 25) x) poor) \<le> valof (fdiv (fmul (f64 25) y) poor)"
            using b(1) b(5) x y le by (rule below_mono(2))
          with e g m False show ?thesis by (simp add: scoreMetric_def f)
        qed
      qed
    qed
  qed
qed

text \<open>Values at the top of the range of the format.\<close>

lemma f64_mag_val:
  assumes "b < inf_mag"
  shows "f64 (mag_val b) = mk_float False b"
proof -
  have "\<not> mag_val b < 0" using mag_val_nonneg [of b] by simp
  moreover have "\<bar>mag_val b\<bar> = mag_val b" using mag_val_nonneg [of b] by simp
  moreover have "round_mag (mag_val b) = b" using assms by (intro round_mag_mag_val) simp
  ultimately show ?thesis by (simp add: f64_def fround_def)
qed

lemma top_binade:
  "mag_val (2045 * 2 ^ 52) = 2 ^ 1022"
  "mag_val (2046 * 2 ^ 52) = 2 ^ 1023"
  "mag_val (2046 * 2 ^ 52 + 2 ^ 50) = 5 * 2 ^ 1021"
  "mag_val (2046 * 2 ^ 52 + 2 ^ 51) = 6 * 2 ^ 1021"
  "mag_val (2046 * 2 ^ 52 + 3 * 2 ^ 50) = 7 * 2 ^ 1021"
  by (simp_all add: mag_val_def pow2_def)

lemma f64_top:
  "f_mag (f64 (2 ^ 1022)) < inf_mag" "valof (f64 (2 ^ 1022)) = 2 ^ 1022"
  "f_mag (f64 (2 ^ 1023)) < inf_mag" "valof (f64 (2 ^ 1023)) = 2 ^ 1023"
  "f_mag (f64 (5 * 2 ^ 1021)) < inf_mag" "valof (f64 (5 * 2 ^ 1021)) = 5 * 2 ^ 1021"
  "f_mag (f64 (6 * 2 ^ 1021)) < inf_mag" "valof (f64 (6 * 2 ^ 1021)) = 6 * 2 ^ 1021"
  "f_mag (f64 (7 * 2 ^ 1021)) < inf_mag" "valof (f64 (7 * 2 ^ 1021)) = 7 * 2 ^ 1021"
proof -
  have b: "2045 * 2 ^ 52 < inf_mag" "2046 * 2 ^ 52 < inf_mag" "2046 * 2 ^ 52 + 2 ^ 50 < inf_mag"
    "2046 * 2 ^ 52 + 2 ^ 51 < inf_mag" "2046 * 2 ^ 52 + 3 * 2 ^ 50 < inf_mag"
    by (simp_all add: inf_mag_def)
  have m: "\<And>b. b < inf_mag \<Longrightarrow> f_mag (f64 (mag_val b)) < inf_mag"
    "\<And>b. b < inf_mag \<Longrightarrow> valof (f64 (mag_val b)) = mag_val b"
  proof -
    fix b assume i: "b < inf_mag"
    then have "b < 2 ^ 63" by (simp add: inf_mag_def)
    then show "f_mag (f64 (mag_val b)) < inf_mag" using i by (simp add: f64_mag_val f_mag_mk_float)
    show "valof (f64 (mag_val b)) = mag_val b" using i by (simp add: f64_mag_val valof_mk_float_pos)
  qed
  show "f_mag (f64 (2 ^ 1022)) < inf_mag" using m(1) [OF b(1)] unfolding top_binade .
  show "valof (f64 (2 ^ 1022)) = 2 ^ 1022" using m(2) [OF b(1)] unfolding top_binade .
  show "f_mag (f64 (2 ^ 1023)) < inf_mag" using m(1) [OF b(2)] unfolding top_binade .
  show "valof (f64 (2 ^ 1023)) = 2 ^ 1023" using m(2) [OF b(2)] unfolding top_binade .
  show "f_mag (f64 (5 * 2 ^ 1021)) < inf_mag" using m(1) [OF b(3)] unfolding top_binade .
  show "valof (f64 (5 * 2 ^ 1021)) = 5 * 2 ^ 1021" using m(2) [OF b(3)] unfolding top_binade .
  show "f_mag (f64 (6 * 2 ^ 1021)) < inf_mag" using m(1) [OF b(4)] unfolding top_binade .
  show "valof (f64 (6 * 2 ^ 1021)) = 6 * 2 ^ 1021" using m(2) [OF b(4)] unfolding top_binade .
  show "f_mag (f64 (7 * 2 ^ 1021)) < inf_mag" using m(1) [OF b(5)] unfolding top_binade .
  show "valof (f64 (7 * 2 ^ 1021)) = 7 * 2 ^ 1021" using m(2) [OF b(5)] unfolding top_binade .
qed

lemma top_order:
  "flt (f64 0) (f64 (2 ^ 1023))" "flt (f64 (2 ^ 1023)) (f64 (5 * 2 ^ 1021))"
  "flt (f64 (5 * 2 ^ 1021)) (f64 (6 * 2 ^ 1021))" "flt (f64 (6 * 2 ^ 1021)) (f64 (7 * 2 ^ 1021))"
  "flt (f64 (2 ^ 1022)) (f64 (2 ^ 1023))"
  using f64_top(1,3,5,7,9) [THEN finite_not_special(1)]
  unfolding flt_def f64_zero f64_top(2,4,6,8,10) by simp_all


lemma overflow_25: "fmul (f64 25) (f64 (2 ^ 1022)) = f64_inf False"
proof -
  have "pow2 1024 \<le> 25 * 2 ^ 1022" by (simp add: pow2_def)
  then have "round_mag (25 * 2 ^ 1022) = inf_mag" by (rule round_mag_overflow)
  moreover have "\<bar>valof (f64 25) * valof (f64 (2 ^ 1022))\<bar> = 25 * 2 ^ 1022"
    unfolding f64_levels(2) f64_top(2) by simp
  ultimately have "round_mag \<bar>valof (f64 25) * valof (f64 (2 ^ 1022))\<bar> = inf_mag" by simp
  moreover have "0 < valof (f64 (2 ^ 1022))" unfolding f64_top(2) by simp
  then have "\<not> f_sign (f64 (2 ^ 1022))" by (rule valof_pos_sign)
  ultimately show ?thesis
    using finite_not_special [OF f64_levels(1)] finite_not_special [OF f64_top(1)] f64_consts(3)
    unfolding fmul_def f64_inf_def by simp
qed

text \<open>
  C5. The claim is monotonicity for every breakpoint tuple with
  \<open>0 < poor < marginal < good < excellent\<close>. With the breakpoints \<open>2^1023\<close>,
  \<open>5 * 2^1021\<close>, \<open>6 * 2^1021\<close>, \<open>7 * 2^1021\<close> the value \<open>2^1022\<close> is below \<open>poor\<close> and
  the product \<open>25 * value\<close> of the last branch overflows: its score is \<open>+Inf\<close>. The larger
  value \<open>2^1023\<close> equals \<open>poor\<close> and scores 25, so the score has gone down.
\<close>

theorem scoreMetric_overflow:
  "flt (f64 0) (f64 (2 ^ 1023)) \<and> flt (f64 (2 ^ 1023)) (f64 (5 * 2 ^ 1021)) \<and>
   flt (f64 (5 * 2 ^ 1021)) (f64 (6 * 2 ^ 1021)) \<and>
   flt (f64 (6 * 2 ^ 1021)) (f64 (7 * 2 ^ 1021)) \<and>
   flt (f64 (2 ^ 1022)) (f64 (2 ^ 1023)) \<and>
   scoreMetric (f64 (2 ^ 1022)) (f64 (2 ^ 1023)) (f64 (5 * 2 ^ 1021)) (f64 (6 * 2 ^ 1021))
     (f64 (7 * 2 ^ 1021)) = f64_inf False \<and>
   scoreMetric (f64 (2 ^ 1023)) (f64 (2 ^ 1023)) (f64 (5 * 2 ^ 1021)) (f64 (6 * 2 ^ 1021))
     (f64 (7 * 2 ^ 1021)) = f64 25 \<and>
   \<not> fge (scoreMetric (f64 (2 ^ 1023)) (f64 (2 ^ 1023)) (f64 (5 * 2 ^ 1021))
       (f64 (6 * 2 ^ 1021)) (f64 (7 * 2 ^ 1021)))
     (scoreMetric (f64 (2 ^ 1022)) (f64 (2 ^ 1023)) (f64 (5 * 2 ^ 1021)) (f64 (6 * 2 ^ 1021))
       (f64 (7 * 2 ^ 1021)))"
proof -
  note n = f64_top(1,3,5,7,9) [THEN finite_not_special(1)]
  have g1: "\<not> fge (f64 (2 ^ 1022)) (f64 (7 * 2 ^ 1021))" "\<not> fge (f64 (2 ^ 1022)) (f64 (6 * 2 ^ 1021))"
    "\<not> fge (f64 (2 ^ 1022)) (f64 (5 * 2 ^ 1021))" "\<not> fge (f64 (2 ^ 1022)) (f64 (2 ^ 1023))"
    unfolding fge_def f64_top(2,4,6,8,10) by simp_all
  have g2: "\<not> fge (f64 (2 ^ 1023)) (f64 (7 * 2 ^ 1021))" "\<not> fge (f64 (2 ^ 1023)) (f64 (6 * 2 ^ 1021))"
    "\<not> fge (f64 (2 ^ 1023)) (f64 (5 * 2 ^ 1021))" "fge (f64 (2 ^ 1023)) (f64 (2 ^ 1023))"
    using n(2) unfolding fge_def f64_top(2,4,6,8,10) by simp_all
  have p: "\<not> is_nan (f64 (2 ^ 1023))" "\<not> is_inf (f64 (2 ^ 1023))" "\<not> f_sign (f64 (2 ^ 1023))"
    using finite_not_special [OF f64_top(3)] valof_pos_sign [of "f64 (2 ^ 1023)"]
    unfolding f64_top(4) by simp_all
  have "fdiv (f64_inf False) (f64 (2 ^ 1023)) = f64_inf False"
    using p unfolding fdiv_def by (simp add: f64_inf_props)
  then have 1: "scoreMetric (f64 (2 ^ 1022)) (f64 (2 ^ 1023)) (f64 (5 * 2 ^ 1021))
      (f64 (6 * 2 ^ 1021)) (f64 (7 * 2 ^ 1021)) = f64_inf False"
    unfolding scoreMetric_def overflow_25 using g1 by simp
  have "fdiv (fmul (f64 25) (fsub (f64 (2 ^ 1023)) (f64 (2 ^ 1023))))
      (fsub (f64 (5 * 2 ^ 1021)) (f64 (2 ^ 1023))) = 0"
    using top_order(1,2) by (rule scoreMetric_band_start)
  then have 2: "scoreMetric (f64 (2 ^ 1023)) (f64 (2 ^ 1023)) (f64 (5 * 2 ^ 1021))
      (f64 (6 * 2 ^ 1021)) (f64 (7 * 2 ^ 1021)) = f64 25"
    unfolding scoreMetric_def using g2 by (simp add: f64_consts(4))
  have "valof (f64_inf False) = 2 ^ 1024" by (simp add: valof_is_inf f64_inf_props)
  then have 3: "\<not> fge (f64 25) (f64_inf False)" by (simp add: fge_def f64_levels(2))
  show ?thesis unfolding 1 2 using top_order 3 by simp
qed

text \<open>
  C5, as the code has it. For every breakpoint tuple with
  \<open>0 < poor < marginal < good < excellent\<close> whose product \<open>25 * excellent\<close> is finite in
  \<open>float64\<close>, and all values \<open>v1 < v2\<close>, the score of \<open>v1\<close> is at most the score of \<open>v2\<close>
  (the comparison \<open>\<le>\<close> of the two \<open>float64\<close> scores holds, so neither score is a NaN).
  The values may be negative or infinite.
\<close>

theorem scoreMetric_monotone:
  assumes "flt (f64 0) poor" and "flt poor marginal" and "flt marginal good"
    and "flt good excellent" and "\<not> is_inf (fmul (f64 25) excellent)" and "flt v1 v2"
  shows "fge (scoreMetric v2 poor marginal good excellent)
    (scoreMetric v1 poor marginal good excellent)"
proof -
  from assms(6) have n1: "\<not> is_nan v1" and n2: "\<not> is_nan v2" and lt: "valof v1 < valof v2"
    by (simp_all add: flt_def)
  note b = breakpoints_finite [OF assms(1-5)]
  note s1 = scoreMetric_band [OF assms(1-5) n1]
  note s2 = scoreMetric_band [OF assms(1-5) n2]
  have "valof (scoreMetric v1 poor marginal good excellent)
      \<le> valof (scoreMetric v2 poor marginal good excellent)"
  proof (cases "(valof poor \<le> valof v1 \<longleftrightarrow> valof poor \<le> valof v2) \<and>
      (valof marginal \<le> valof v1 \<longleftrightarrow> valof marginal \<le> valof v2) \<and>
      (valof good \<le> valof v1 \<longleftrightarrow> valof good \<le> valof v2) \<and>
      (valof excellent \<le> valof v1 \<longleftrightarrow> valof excellent \<le> valof v2)")
    case True
    with assms(1-5) n1 n2 less_imp_le [OF lt] show ?thesis
      by (intro scoreMetric_same_band) simp_all
  next
    case False
    with lt have "valof v1 < valof poor \<and> valof poor \<le> valof v2 \<or>
        valof v1 < valof marginal \<and> valof marginal \<le> valof v2 \<or>
        valof v1 < valof good \<and> valof good \<le> valof v2 \<or>
        valof v1 < valof excellent \<and> valof excellent \<le> valof v2"
      by linarith
    with s1 s2 b(5-8) show ?thesis by (elim conjE disjE) linarith+
  qed
  with s1 s2 show ?thesis by (simp add: fge_def)
qed

text \<open>The Keccak calibration curve with the values 60000 and 150000.\<close>

theorem scoreMetric_monotone_witness:
  "flt (f64 0) (f64 50000) \<and> flt (f64 50000) (f64 100000) \<and> flt (f64 100000) (f64 200000) \<and>
   flt (f64 200000) (f64 500000) \<and> \<not> is_inf (fmul (f64 25) (f64 500000)) \<and>
   flt (f64 60000) (f64 150000) \<and>
   fge (scoreMetric (f64 150000) (f64 50000) (f64 100000) (f64 200000) (f64 500000))
     (scoreMetric (f64 60000) (f64 50000) (f64 100000) (f64 200000) (f64 500000))"
proof -
  have h: "flt (f64 0) (f64 50000)" "flt (f64 50000) (f64 100000)" "flt (f64 100000) (f64 200000)"
    "flt (f64 200000) (f64 500000)" "\<not> is_inf (fmul (f64 25) (f64 500000))"
    "flt (f64 60000) (f64 150000)"
    by (simp_all add: f64_defs)
  from scoreMetric_monotone [OF h] h show ?thesis by blast
qed

section \<open>Probes without a successful operation\<close>

lemma f64_of_u64_0 [simp]: "f64_of_u64 0 = 0"
  by (simp add: f64_of_u64_def fround_def)

lemma f64_of_int_0 [simp]: "f64_of_int 0 = 0"
  by (simp add: f64_of_int_def fround_def)

lemma fdiv_0_0: "fdiv 0 0 = f64_nan"
  by (simp add: fdiv_def)

lemma is_nan_f64_nan: "is_nan f64_nan"
  by (simp add: f64_nan_def is_nan_def f_mag_def mk_float_def inf_mag_def)

lemma Microseconds_0 [simp]: "Microseconds 0 = 0"
  by (simp add: Microseconds_def div64_def)

lemma fdiv_0_Seconds: "0 <s d \<Longrightarrow> fdiv 0 (Seconds d) = 0"
  using Seconds_pos [of d] by (simp add: fdiv_zero_left)

lemma fdiv_0_MB: "fdiv 0 (f64 1048576) = 0"
  by (rule fdiv_zero_left) (simp_all add: f64_defs)

lemma rateKeccak_0: "rateKeccak 0 = ''Poor''"
  by (simp add: rateKeccak_def f64_defs)

lemma fmul_0_left: "\<not> is_nan b \<Longrightarrow> \<not> is_inf b \<Longrightarrow> \<not> f_sign b \<Longrightarrow> fmul 0 b = 0"
  by (simp add: fmul_def)

lemma rateRandom_0: "rateRandom 0 0 = ''Poor''"
proof -
  have "fmul 0 (f64 (7 / 10)) = 0" by (rule fmul_0_left) (simp_all add: f64_defs)
  moreover have "fmul 0 (f64 (3 / 10)) = 0" by (rule fmul_0_left) (simp_all add: f64_defs)
  moreover have "fadd 0 0 = 0" by (simp add: fadd_def)
  moreover have "\<not> fge 0 (f64 50000)" "\<not> fge 0 (f64 20000)" "\<not> fge 0 (f64 10000)"
    "\<not> fge 0 (f64 5000)"
    by (simp_all add: f64_defs)
  ultimately show ?thesis by (simp add: rateRandom_def)
qed

lemma Seconds_0: "Seconds 0 = 0"
proof -
  have "div64 0 Second = 0" "mod64 0 Second = 0"
    by (simp_all add: div64_def mod64_def signed_divide_int_def signed_modulo_int_def)
  moreover have "fdiv 0 (f64 1000000000) = 0" by (rule fdiv_zero_left) (rule f64_1e9)+
  moreover have "fadd 0 0 = 0" by (simp add: fadd_def)
  ultimately show ?thesis by (simp add: Seconds_def)
qed

lemma nonneg_Duration_cases: "\<not> d <s 0 \<Longrightarrow> d = 0 \<or> 0 <s (d :: Duration)"
proof -
  assume "\<not> d <s 0"
  then have "sint d = 0 \<or> 0 < sint d" by (auto simp: word_sless_alt)
  then show ?thesis by (auto simp: word_sless_alt signed_eq_0_iff)
qed

text \<open>Zero operations over an elapsed time that is not negative: \<open>0 / 0\<close> or \<open>0 / t\<close>.\<close>

lemma zero_rate:
  assumes "\<not> elapsed <s 0"
  shows "fdiv (f64_of_u64 0) (Seconds elapsed) = (if elapsed = 0 then f64_nan else 0)"
proof (cases "elapsed = 0")
  case True
  then show ?thesis by (simp add: Seconds_0 fdiv_0_0)
next
  case False
  with nonneg_Duration_cases [OF assms] have "0 <s elapsed" by simp
  with False show ?thesis by (simp add: fdiv_0_Seconds)
qed

lemma fdiv_by_zero: "\<not> is_nan a \<Longrightarrow> is_nan (fdiv a 0) \<or> is_inf (fdiv a 0)"
  by (simp add: fdiv_def is_nan_f64_nan f64_inf_props)

lemma is_nan_f64_of_int: "\<not> is_nan (f64_of_int i)"
  by (simp add: f64_of_int_def is_nan_fround)

lemma fge_nan: "\<not> fge f64_nan b"
  by (simp add: fge_def is_nan_f64_nan)

lemma rateKeccak_nan: "rateKeccak f64_nan = ''Poor''"
  by (simp add: rateKeccak_def fge_nan)

lemma rateRandom_zero_or_nan:
  assumes "a = 0 \<or> a = f64_nan" and "b = 0 \<or> b = f64_nan"
  shows "rateRandom a b = ''Poor''"
proof (cases "a = 0 \<and> b = 0")
  case True
  then show ?thesis by (simp add: rateRandom_0)
next
  case False
  with assms have "is_nan a \<or> is_nan b" by (auto simp: is_nan_f64_nan)
  then have "is_nan (fmul a (f64 (7 / 10))) \<or> is_nan (fmul b (f64 (3 / 10)))"
    by (auto simp: fmul_def is_nan_f64_nan)
  then have "fadd (fmul a (f64 (7 / 10))) (fmul b (f64 (3 / 10))) = f64_nan"
    by (auto simp: fadd_def)
  then show ?thesis by (simp add: rateRandom_def fge_nan)
qed

text \<open>A loop whose operations all fail leaves the count of successes as it was.\<close>

lemma io_loop_fst:
  "io_loop duration clock ops acc = Some (acc', rest) \<Longrightarrow>
   \<forall>op \<in> set ops. \<not> snd op \<Longrightarrow> fst acc' = fst acc"
proof (induction duration clock ops acc rule: io_loop.induct)
  case (1 duration ops acc)
  then show ?case by simp
next
  case (2 duration since clock ops n totalLatency)
  show ?case
  proof (cases "since <s duration")
    case False
    with "2.prems" show ?thesis by auto
  next
    case True
    show ?thesis
    proof (cases ops)
      case Nil
      with True "2.prems" show ?thesis by simp
    next
      case (Cons op ops')
      obtain latency ok where op: "op = (latency, ok)" by (cases op)
      with Cons "2.prems"(2) have ok: "\<not> ok" and rest: "\<forall>op \<in> set ops'. \<not> snd op" by auto
      from True Cons op ok "2.prems"(1)
      have "io_loop duration clock ops' (n, totalLatency + latency) = Some (acc', rest)"
        by simp
      with "2.IH" [OF True Cons op [symmetric]] ok rest show ?thesis by simp
    qed
  qed
qed

lemma io_loop_all_fail:
  "io_loop duration clock ops (n, lat) = Some ((n', lat'), rest) \<Longrightarrow>
   \<forall>op \<in> set ops. \<not> snd op \<Longrightarrow> n' = n"
  using io_loop_fst [of duration clock ops "(n, lat)" "(n', lat')" rest] by simp

lemma keccak_no_iteration:
  assumes "\<not> since <s duration" and "\<not> elapsed <s 0"
  shows "BenchmarkKeccak256 duration verbose (since # elapsed # rest) =
    Some \<lparr>Keccak_HashesPerSecond = (if elapsed = 0 then f64_nan else 0),
          Keccak_TotalHashes = 0, Keccak_DataProcessedMB = 0,
          Keccak_Duration = elapsed, Keccak_Rating = ''Poor''\<rparr>"
proof -
  have r: "fdiv 0 (Seconds elapsed) = (if elapsed = 0 then f64_nan else 0)"
    using zero_rate [OF assms(2)] by simp
  have "rateKeccak (if elapsed = 0 then f64_nan else 0) = ''Poor''"
    by (simp add: rateKeccak_0 rateKeccak_nan)
  with assms(1) r show ?thesis by (simp add: BenchmarkKeccak256_def fdiv_0_MB)
qed

lemma random_no_success:
  assumes "openFileErr env = None" and "truncateErr env = None"
    and "\<forall>op \<in> set (readOps env). \<not> snd op" and "\<forall>op \<in> set (writeOps env). \<not> snd op"
    and r: "io_loop (div64 (duration * 3) 5) (readClock env) (readOps env) (0, 0)
        = Some ((readCount, readLatency), readElapsed # rrest)"
    and w: "io_loop (div64 (duration * 2) 5) (writeClock env) (writeOps env) (0, 0)
        = Some ((writeCount, writeLatency), writeElapsed # wrest)"
    and "\<not> readElapsed <s 0" and "\<not> writeElapsed <s 0"
  shows "BenchmarkRandom testDir duration verbose env =
    Some \<lparr>Random_ReadIOPS = (if readElapsed = 0 then f64_nan else 0),
          Random_WriteIOPS = (if writeElapsed = 0 then f64_nan else 0),
          Random_AvgLatencyUs =
            fdiv (f64_of_int (sint (Microseconds (readLatency + writeLatency)))) 0,
          Random_Duration = readElapsed + writeElapsed, Random_Rating = ''Poor''\<rparr>"
proof -
  have rc: "readCount = 0" using io_loop_all_fail [OF r assms(3)] .
  have wc: "writeCount = 0" using io_loop_all_fail [OF w assms(4)] .
  have rr: "fdiv 0 (Seconds readElapsed) = (if readElapsed = 0 then f64_nan else 0)"
    using zero_rate [OF assms(7)] by simp
  have wr: "fdiv 0 (Seconds writeElapsed) = (if writeElapsed = 0 then f64_nan else 0)"
    using zero_rate [OF assms(8)] by simp
  have rate: "rateRandom (if readElapsed = 0 then f64_nan else 0)
      (if writeElapsed = 0 then f64_nan else 0) = ''Poor''"
    by (rule rateRandom_zero_or_nan) simp_all
  show ?thesis
    using assms(1,2) r w by (simp add: BenchmarkRandom_def rc wc rr wr rate)
qed

text \<open>
  C8. The claim is that a probe with zero iterations or zero elapsed time reports 0 for
  every rate and for the average latency, never a NaN. \<open>BenchmarkRandom\<close> with an
  allotted duration of 0 runs no operation and then divides the total latency by the
  number of operations, \<open>0 / 0\<close>: its \<open>AvgLatencyUs\<close> is a NaN. \<open>BenchmarkKeccak256\<close>
  with zero iterations and an elapsed time of 0 divides 0 hashes by 0 seconds: its
  \<open>HashesPerSecond\<close> is a NaN.
\<close>

theorem probes_zero_duration_nan:
  "BenchmarkRandom ''.'' 0 False idleRandomEnv =
     Some \<lparr>Random_ReadIOPS = 0, Random_WriteIOPS = 0, Random_AvgLatencyUs = f64_nan,
           Random_Duration = 200, Random_Rating = ''Poor''\<rparr> \<and>
   BenchmarkKeccak256 0 False [0, 0] =
     Some \<lparr>Keccak_HashesPerSecond = f64_nan, Keccak_TotalHashes = 0,
           Keccak_DataProcessedMB = 0, Keccak_Duration = 0, Keccak_Rating = ''Poor''\<rparr> \<and>
   is_nan f64_nan \<and> \<not> feq f64_nan 0"
proof -
  have io: "io_loop (div64 (0 * 3) 5) [0, 100] [] (0, 0) = Some ((0, 0), [100])"
    "io_loop (div64 (0 * 2) 5) [0, 100] [] (0, 0) = Some ((0, 0), [100])"
    by (simp_all add: div64_def word_sless_alt)
  have "BenchmarkRandom ''.'' 0 False idleRandomEnv =
     Some \<lparr>Random_ReadIOPS = 0, Random_WriteIOPS = 0, Random_AvgLatencyUs = f64_nan,
           Random_Duration = 200, Random_Rating = ''Poor''\<rparr>"
    using io by (simp add: BenchmarkRandom_def idleRandomEnv_def fdiv_0_Seconds fdiv_0_0
        rateRandom_0 word_sless_alt)
  moreover have "BenchmarkKeccak256 0 False [0, 0] =
     Some \<lparr>Keccak_HashesPerSecond = f64_nan, Keccak_TotalHashes = 0,
           Keccak_DataProcessedMB = 0, Keccak_Duration = 0, Keccak_Rating = ''Poor''\<rparr>"
    by (simp add: BenchmarkKeccak256_def Seconds_0 fdiv_0_0 fdiv_0_MB rateKeccak_nan
        word_sless_alt)
  ultimately show ?thesis by (simp add: is_nan_f64_nan feq_def)
qed

text \<open>
  C8, as the code has it, for the two probes the claim cites. Neither guards a division.
  When the loop of \<open>BenchmarkKeccak256\<close> runs no iteration, \<open>HashesPerSecond\<close> is 0 if
  the elapsed time read after the loop is positive and the NaN of \<open>0 / 0\<close> if it is 0;
  \<open>TotalHashes\<close> and \<open>DataProcessedMB\<close> are 0. When no read and no write of
  \<open>BenchmarkRandom\<close> succeeds (none is run, or each one fails), \<open>ReadIOPS\<close> and
  \<open>WriteIOPS\<close> are 0 if their elapsed time is positive and a NaN if it is 0, and
  \<open>AvgLatencyUs\<close>, the total latency in microseconds divided by zero operations, is a NaN
  or an infinity, never 0.
\<close>

theorem probes_zero_operations:
  "(\<not> since <s duration \<and> \<not> elapsed <s 0 \<longrightarrow>
      BenchmarkKeccak256 duration verbose (since # elapsed # rest) =
        Some \<lparr>Keccak_HashesPerSecond = (if elapsed = 0 then f64_nan else 0),
              Keccak_TotalHashes = 0, Keccak_DataProcessedMB = 0,
              Keccak_Duration = elapsed, Keccak_Rating = ''Poor''\<rparr>) \<and>
   (openFileErr env = None \<and> truncateErr env = None \<and>
    (\<forall>op \<in> set (readOps env). \<not> snd op) \<and> (\<forall>op \<in> set (writeOps env). \<not> snd op) \<and>
    io_loop (div64 (duration * 3) 5) (readClock env) (readOps env) (0, 0)
      = Some ((readCount, readLatency), readElapsed # rrest) \<and>
    io_loop (div64 (duration * 2) 5) (writeClock env) (writeOps env) (0, 0)
      = Some ((writeCount, writeLatency), writeElapsed # wrest) \<and>
    \<not> readElapsed <s 0 \<and> \<not> writeElapsed <s 0 \<longrightarrow>
      BenchmarkRandom testDir duration verbose env =
        Some \<lparr>Random_ReadIOPS = (if readElapsed = 0 then f64_nan else 0),
              Random_WriteIOPS = (if writeElapsed = 0 then f64_nan else 0),
              Random_AvgLatencyUs =
                fdiv (f64_of_int (sint (Microseconds (readLatency + writeLatency)))) 0,
              Random_Duration = readElapsed + writeElapsed, Random_Rating = ''Poor''\<rparr> \<and>
      (is_nan (fdiv (f64_of_int (sint (Microseconds (readLatency + writeLatency)))) 0) \<or>
       is_inf (fdiv (f64_of_int (sint (Microseconds (readLatency + writeLatency)))) 0)))"
  using keccak_no_iteration [of since duration elapsed verbose rest]
    random_no_success [of env duration readCount readLatency readElapsed rrest
      writeCount writeLatency writeElapsed wrest testDir verbose]
    fdiv_by_zero [OF is_nan_f64_of_int, of "sint (Microseconds (readLatency + writeLatency))"]
  by blast

text \<open>
  \<open>BenchmarkKeccak256\<close> with an allotted duration and an elapsed time of 0, and
  \<open>BenchmarkRandom\<close> with a failed read and a failed write: 4 microseconds of latency
  over 0 operations is \<open>+Inf\<close>.
\<close>

theorem probes_zero_operations_witness:
  "\<not> (0 :: Duration) <s 0 \<and>
   BenchmarkKeccak256 0 False [0, 0] =
     Some \<lparr>Keccak_HashesPerSecond = f64_nan, Keccak_TotalHashes = 0,
           Keccak_DataProcessedMB = 0, Keccak_Duration = 0, Keccak_Rating = ''Poor''\<rparr> \<and>
   openFileErr failingRandomEnv = None \<and> truncateErr failingRandomEnv = None \<and>
   readOps failingRandomEnv = [(2500, False)] \<and>
   writeOps failingRandomEnv = [(1500, False)] \<and>
   io_loop (div64 (5000 * 3) 5) (readClock failingRandomEnv) (readOps failingRandomEnv) (0, 0)
     = Some ((0, 2500), [3100]) \<and>
   io_loop (div64 (5000 * 2) 5) (writeClock failingRandomEnv) (writeOps failingRandomEnv) (0, 0)
     = Some ((0, 1500), [2050]) \<and>
   BenchmarkRandom ''.'' 5000 False failingRandomEnv =
     Some \<lparr>Random_ReadIOPS = 0, Random_WriteIOPS = 0, Random_AvgLatencyUs = f64_inf False,
           Random_Duration = 5150, Random_Rating = ''Poor''\<rparr> \<and>
   is_inf (f64_inf False)"
proof -
  have k: "\<not> (0 :: Duration) <s 0" by simp
  have e: "openFileErr failingRandomEnv = None" "truncateErr failingRandomEnv = None"
    by (simp_all add: failingRandomEnv_def)
  have o: "readOps failingRandomEnv = [(2500, False)]"
    "writeOps failingRandomEnv = [(1500, False)]"
    by (simp_all add: failingRandomEnv_def)
  have io: "io_loop (div64 (5000 * 3) 5) (readClock failingRandomEnv)
        (readOps failingRandomEnv) (0, 0) = Some ((0, 2500), [3100])"
    "io_loop (div64 (5000 * 2) 5) (writeClock failingRandomEnv)
        (writeOps failingRandomEnv) (0, 0) = Some ((0, 1500), [2050])"
    by (simp_all add: failingRandomEnv_def div64_def signed_divide_int_def word_sless_alt)
  have n: "\<not> (3100 :: Duration) <s 0" "\<not> (2050 :: Duration) <s 0"
    by (simp_all add: word_sless_alt)
  have avg: "fdiv (f64_of_int (sint (Microseconds 4000))) 0 = f64_inf False"
    by (simp add: Microseconds_def div64_def signed_divide_int_def f64_of_int_def fround_def
        fdiv_def is_nan_mk_float round_mag_le_inf is_inf_def is_zero_def f_mag_mk_float
        round_mag_less f_sign_mk_float round_mag_def f_exp_def ilog2_def bitlen.simps rne_def
        pow2_def inf_mag_def)
  from probes_zero_operations [where since = 0 and duration = 0 and elapsed = 0
      and verbose = False and rest = "[]"] k
  have 1: "BenchmarkKeccak256 0 False [0, 0] =
     Some \<lparr>Keccak_HashesPerSecond = f64_nan, Keccak_TotalHashes = 0,
           Keccak_DataProcessedMB = 0, Keccak_Duration = 0, Keccak_Rating = ''Poor''\<rparr>"
    by simp
  from probes_zero_operations [where env = failingRandomEnv and duration = 5000
      and readCount = 0 and readLatency = 2500 and readElapsed = 3100 and rrest = "[]"
      and writeCount = 0 and writeLatency = 1500 and writeElapsed = 2050 and wrest = "[]"
      and testDir = "''.''" and verbose = False] e o io n
  have 2: "BenchmarkRandom ''.'' 5000 False failingRandomEnv =
     Some \<lparr>Random_ReadIOPS = 0, Random_WriteIOPS = 0, Random_AvgLatencyUs = f64_inf False,
           Random_Duration = 5150, Random_Rating = ''Poor''\<rparr>"
    by (simp add: avg)
  from k e o io 1 2 show ?thesis by (simp add: f64_inf_props)
qed

section \<open>Probes whose setup fails\<close>










section \<open>The overall score\<close>














end
